theory Spec2Isabelle
  imports Main "HOL-Library.Char_ord" "HOL-Library.List_Lexorder" "HOL-Library.Multiset"
    "HOL-Library.AList"
begin

section \<open>Course catalog: data model\<close>

text \<open>
  The source file holds two versions of the advising program.  The original version
  (called variant 1 below) keeps the courses in a binary search tree only and looks a
  course up by searching the tree.  The enhanced version (variant 2) keeps the same tree
  for the sorted listing and adds an \<open>unordered_map\<close> from course number to course for
  the lookup.  Names that occur in both versions carry the suffix \<open>_v1\<close> or \<open>_v2\<close>.

  \<open>std::string\<close> is a byte string compared by \<open>operator<\<close>: lexicographically on the
  bytes read as unsigned values, a proper prefix being smaller.  That is the order of
  \<open>char list\<close> given by \<open>Char_ord\<close> and \<open>List_Lexorder\<close>.
\<close>

record Course =
  courseNumber :: string
  courseTitle :: string
  prerequisites :: "string list"

text \<open>A node owns its two children; the null pointer is \<open>Null\<close>.\<close>

datatype Node = Null | Node (course: Course) (left: Node) (right: Node)

record CourseBST =
  root :: Node

text \<open>The constructor \<open>CourseBST()\<close>: an empty tree.\<close>

definition CourseBST_new :: CourseBST where
  "CourseBST_new = \<lparr>root = Null\<rparr>"

section \<open>Variant 1: the tree\<close>

text \<open>\<open>addNode\<close> takes the pointer by reference; the model returns the updated subtree.\<close>

fun addNode :: "Node \<Rightarrow> Course \<Rightarrow> Node" where
  "addNode Null c = Node c Null Null"
| "addNode (Node a l r) c =
     (if courseNumber c < courseNumber a then Node a (addNode l c) r
      else Node a l (addNode r c))"

text \<open>
  \<open>inOrder\<close> visits left subtree, node, right subtree and prints one line per node.
  The model returns the visited courses in the order of the visits; \<open>course_line\<close> is
  the text printed for one of them.
\<close>

fun inOrder :: "Node \<Rightarrow> Course list" where
  "inOrder Null = []"
| "inOrder (Node a l r) = inOrder l @ a # inOrder r"

definition course_line :: "Course \<Rightarrow> string" where
  "course_line c = courseNumber c @ '', '' @ courseTitle c"

fun search :: "Node \<Rightarrow> string \<Rightarrow> Node" where
  "search Null k = Null"
| "search (Node a l r) k =
     (if courseNumber a = k then Node a l r
      else if k < courseNumber a then search l k
      else search r k)"

definition Insert_v1 :: "CourseBST \<Rightarrow> Course \<Rightarrow> CourseBST" where
  "Insert_v1 bst c = bst\<lparr>root := addNode (root bst) c\<rparr>"

definition PrintCourseList :: "CourseBST \<Rightarrow> string list" where
  "PrintCourseList bst = map course_line (inOrder (root bst))"

text \<open>
  The prerequisites of a course are printed on one line, separated by a comma and a
  space; the loop prints the separator after every element but the last.
\<close>

fun prereq_text :: "string list \<Rightarrow> string" where
  "prereq_text [] = []"
| "prereq_text [p] = p"
| "prereq_text (p # ps) = p @ '', '' @ prereq_text ps"

definition course_details :: "Course \<Rightarrow> string list" where
  "course_details c =
     [course_line c,
      if prerequisites c = [] then ''Prerequisites: None''
      else ''Prerequisites: '' @ prereq_text (prerequisites c)]"

definition PrintCourse :: "CourseBST \<Rightarrow> string \<Rightarrow> string list" where
  "PrintCourse bst k =
     (case search (root bst) k of
        Null \<Rightarrow> [''Course not found.'']
      | Node c l r \<Rightarrow> course_details c)"

section \<open>Variant 2: the tree and the map\<close>

fun insertNode :: "Node \<Rightarrow> Course \<Rightarrow> Node" where
  "insertNode Null c = Node c Null Null"
| "insertNode (Node a l r) c =
     (if courseNumber c < courseNumber a then Node a (insertNode l c) r
      else Node a l (insertNode r c))"

fun inOrderTraversal :: "Node \<Rightarrow> Course list" where
  "inOrderTraversal Null = []"
| "inOrderTraversal (Node a l r) = inOrderTraversal l @ a # inOrderTraversal r"

definition Insert_v2 :: "CourseBST \<Rightarrow> Course \<Rightarrow> CourseBST" where
  "Insert_v2 bst c = bst\<lparr>root := insertNode (root bst) c\<rparr>"

definition PrintSortedCourses :: "CourseBST \<Rightarrow> string list" where
  "PrintSortedCourses bst = map course_line (inOrderTraversal (root bst))"

text \<open>
  The \<open>unordered_map<string, Course>\<close> is a list of entries with pairwise different
  keys.  The order of the list stands for the order in which the container is
  iterated, which C++ leaves to the implementation; what is proved below about the
  iteration is stated on multisets and on \<open>map_of\<close>, so it holds for every such order.
  \<open>courseMap[k] = c\<close> is \<open>AList.update k c\<close>, and \<open>courseMap.find(k)\<close> is \<open>map_find\<close>, with
  \<open>None\<close> for \<open>end()\<close>.
\<close>

type_synonym course_map = "(string \<times> Course) list"

definition map_find :: "course_map \<Rightarrow> string \<Rightarrow> Course option" where
  "map_find m k = map_of m k"

definition PrintCourseDetails :: "string \<Rightarrow> course_map \<Rightarrow> string list" where
  "PrintCourseDetails k m =
     (case map_find m k of
        None \<Rightarrow> [''Course not found.'']
      | Some c \<Rightarrow> course_details c)"

section \<open>Input streams\<close>

text \<open>
  An input stream is the text not yet read and the two state bits the loader depends
  on.  \<open>getline s str d\<close> is \<open>std::getline(s, str, d)\<close>: on a stream that is not good it
  only sets \<open>failbit\<close> and leaves \<open>str\<close> alone; otherwise it clears \<open>str\<close> and reads up to
  the delimiter, which it removes from the stream and does not store; reaching the end
  of the text sets \<open>eofbit\<close>, and reading nothing at all sets \<open>failbit\<close> too.  The stream
  converts to true when \<open>failbit\<close> is not set.
\<close>

record istream =
  buf :: string
  eofbit :: bool
  failbit :: bool

definition open_stream :: "string \<Rightarrow> istream" where
  "open_stream s = \<lparr>buf = s, eofbit = False, failbit = False\<rparr>"

definition getline :: "istream \<Rightarrow> string \<Rightarrow> char \<Rightarrow> istream \<times> string" where
  "getline s str d =
     (if eofbit s \<or> failbit s then (s\<lparr>failbit := True\<rparr>, str)
      else if buf s = [] then (s\<lparr>eofbit := True, failbit := True\<rparr>, [])
      else (case dropWhile (\<lambda>c. c \<noteq> d) (buf s) of
              [] \<Rightarrow> (s\<lparr>buf := [], eofbit := True\<rparr>, takeWhile (\<lambda>c. c \<noteq> d) (buf s))
            | x # rest \<Rightarrow> (s\<lparr>buf := rest\<rparr>, takeWhile (\<lambda>c. c \<noteq> d) (buf s))))"

definition stream_size :: "istream \<Rightarrow> nat" where
  "stream_size s = (if failbit s then 0 else if eofbit s then 1 else length (buf s) + 2)"

lemma getline_stream_size:
  "\<not> failbit (fst (getline s str d)) \<Longrightarrow> stream_size (fst (getline s str d)) < stream_size s"
proof -
  assume ok: "\<not> failbit (fst (getline s str d))"
  have len: "\<And>x rest. dropWhile (\<lambda>c. c \<noteq> d) (buf s) = x # rest \<Longrightarrow> length rest < length (buf s)"
  proof -
    fix x rest
    assume "dropWhile (\<lambda>c. c \<noteq> d) (buf s) = x # rest"
    then have "Suc (length rest) = length (dropWhile (\<lambda>c. c \<noteq> d) (buf s))"
      by simp
    also have "\<dots> \<le> length (buf s)"
      by (rule length_dropWhile_le)
    finally show "length rest < length (buf s)"
      by simp
  qed
  from ok show ?thesis
    by (auto simp: getline_def stream_size_def split: if_splits list.splits dest: len)
qed


lemma getline_decr:
  assumes "(s', str') = getline s str d" and "\<not> failbit s'"
  shows "stream_size s' < stream_size s"
proof -
  from assms(1) have "s' = fst (getline s str d)"
    by (metis fst_conv)
  with assms(2) show ?thesis
    using getline_stream_size [of s str d] by simp
qed

lemma getline_decr_sym:
  "getline s str d = (s', str') \<Longrightarrow> \<not> failbit s' \<Longrightarrow> stream_size s' < stream_size s"
  using getline_decr [of s' str' s str d] by simp

section \<open>Variant 1: the loader\<close>

text \<open>
  A file system maps a file name to the text of the file, or to \<open>None\<close> when the file
  cannot be opened.  What the loader prints is a list of messages; \<open>render_v1\<close> and
  \<open>render_v2\<close> give the text of a message in either variant.
\<close>

type_synonym filesystem = "string \<Rightarrow> string option"

datatype message = OpenFailure string | Warning (owner: string) (missing: string)

fun render_v1 :: "message \<Rightarrow> string" where
  "render_v1 (OpenFailure f) = ''Unable to open file: '' @ f"
| "render_v1 (Warning c p) = []"

fun render_v2 :: "message \<Rightarrow> string" where
  "render_v2 (OpenFailure f) = ''Error: Unable to open file '' @ f"
| "render_v2 (Warning c p) =
     ''Warning: Course '' @ c @ '' references missing prerequisite '' @ p"

text \<open>
  Variant 1 removes one space at the front of a token, if there is one, and then one
  space at its back, if there is one.
\<close>

definition trim_v1 :: "string \<Rightarrow> string" where
  "trim_v1 token =
     (let t1 = (if token \<noteq> [] \<and> hd token = CHR '' '' then tl token else token);
          t2 = (if t1 \<noteq> [] \<and> last t1 = CHR '' '' then butlast t1 else t1)
      in t2)"

function read_prereqs_v1 :: "istream \<Rightarrow> string \<Rightarrow> Course \<Rightarrow> Course" where
  "read_prereqs_v1 ss token c =
     (case getline ss token (CHR '','') of
        (ss', token') \<Rightarrow>
          if failbit ss' then c
          else let t = trim_v1 token' in
            read_prereqs_v1 ss' t
              (if t \<noteq> [] then c\<lparr>prerequisites := prerequisites c @ [t]\<rparr> else c))"
  by pat_completeness auto
termination
  by (relation "measure (\<lambda>(ss, token, c). stream_size ss)") (auto dest: getline_decr)

text \<open>
  Parsing one line that is not empty: a string stream on the line, a
  default-constructed course, the two reads of number and title, and the loop over the
  remaining tokens.
\<close>

definition parse_line_v1 :: "string \<Rightarrow> Course" where
  "parse_line_v1 line =
     (let ss = open_stream line;
          c = \<lparr>courseNumber = [], courseTitle = [], prerequisites = []\<rparr>;
          (ss1, num) = getline ss (courseNumber c) (CHR '','');
          (ss2, title) = getline ss1 (courseTitle c) (CHR '','')
      in read_prereqs_v1 ss2 [] (c\<lparr>courseNumber := num, courseTitle := title\<rparr>))"

text \<open>
  The body of the outer loop for one line read from the file: an empty line is
  skipped, any other line is parsed and the course inserted.
\<close>

definition loop_body_v1 :: "string \<Rightarrow> CourseBST \<Rightarrow> CourseBST" where
  "loop_body_v1 line bst =
     (if line = [] then bst else Insert_v1 bst (parse_line_v1 line))"

function load_lines_v1 :: "istream \<Rightarrow> string \<Rightarrow> CourseBST \<Rightarrow> CourseBST" where
  "load_lines_v1 file line bst =
     (case getline file line (CHR 0x0A) of
        (file', line') \<Rightarrow>
          if failbit file' then bst
          else load_lines_v1 file' line' (loop_body_v1 line' bst))"
  by pat_completeness auto
termination
  by (relation "measure (\<lambda>(file, line, bst). stream_size file)") (auto dest: getline_decr)

definition LoadCourses_v1 :: "filesystem \<Rightarrow> string \<Rightarrow> CourseBST \<Rightarrow> message list \<times> CourseBST" where
  "LoadCourses_v1 fs filename bst =
     (case fs filename of
        None \<Rightarrow> ([OpenFailure filename], bst)
      | Some text \<Rightarrow> ([], load_lines_v1 (open_stream text) [] bst))"

section \<open>Variant 2: the loader\<close>

text \<open>
  \<open>find_first_not_of\<close> and \<open>find_last_not_of\<close> return the position of the first and of
  the last character that is not among the given ones; \<open>None\<close> is \<open>npos\<close>.
  \<open>erase s pos n\<close> removes \<open>n\<close> characters from position \<open>pos\<close> on, to the end of the
  string when fewer are left or when \<open>n\<close> is \<open>npos\<close>.  The loader calls it at position 0
  and at a position that is at most the length of the string (\<open>find_last_not_of_less\<close>
  below), so the exception of \<open>erase\<close> for a position behind the end cannot occur.
\<close>

fun find_first_not_of :: "string \<Rightarrow> string \<Rightarrow> nat option" where
  "find_first_not_of [] cs = None"
| "find_first_not_of (x # xs) cs =
     (if x \<notin> set cs then Some 0 else map_option Suc (find_first_not_of xs cs))"

fun find_last_not_of :: "string \<Rightarrow> string \<Rightarrow> nat option" where
  "find_last_not_of [] cs = None"
| "find_last_not_of (x # xs) cs =
     (case find_last_not_of xs cs of
        Some i \<Rightarrow> Some (Suc i)
      | None \<Rightarrow> if x \<notin> set cs then Some 0 else None)"

definition erase :: "string \<Rightarrow> nat \<Rightarrow> nat option \<Rightarrow> string" where
  "erase s pos n = take pos s @ (case n of None \<Rightarrow> [] | Some k \<Rightarrow> drop (pos + k) s)"

text \<open>
  The second call of \<open>erase\<close> starts at \<open>find_last_not_of(" ") + 1\<close>; the sum is taken
  in \<open>size_t\<close>, where \<open>npos\<close> is the largest value, so \<open>npos + 1\<close> is 0.
\<close>

definition trim_v2 :: "string \<Rightarrow> string" where
  "trim_v2 token =
     (let t1 = erase token 0 (find_first_not_of token '' '');
          t2 = erase t1 (case find_last_not_of t1 '' '' of None \<Rightarrow> 0 | Some i \<Rightarrow> i + 1) None
      in t2)"

function read_prereqs_v2 :: "istream \<Rightarrow> string \<Rightarrow> Course \<Rightarrow> Course" where
  "read_prereqs_v2 ss token c =
     (case getline ss token (CHR '','') of
        (ss', token') \<Rightarrow>
          if failbit ss' then c
          else let t = trim_v2 token' in
            read_prereqs_v2 ss' t
              (if t \<noteq> [] then c\<lparr>prerequisites := prerequisites c @ [t]\<rparr> else c))"
  by pat_completeness auto
termination
  by (relation "measure (\<lambda>(ss, token, c). stream_size ss)") (auto dest: getline_decr)

definition parse_line_v2 :: "string \<Rightarrow> Course" where
  "parse_line_v2 line =
     (let ss = open_stream line;
          c = \<lparr>courseNumber = [], courseTitle = [], prerequisites = []\<rparr>;
          (ss1, num) = getline ss (courseNumber c) (CHR '','');
          (ss2, title) = getline ss1 (courseTitle c) (CHR '','')
      in read_prereqs_v2 ss2 [] (c\<lparr>courseNumber := num, courseTitle := title\<rparr>))"

text \<open>
  The two containers the enhanced loader fills are passed by reference; the model
  passes and returns them together.
\<close>

record catalog =
  bst :: CourseBST
  courseMap :: course_map

definition catalog_new :: catalog where
  "catalog_new = \<lparr>bst = CourseBST_new, courseMap = []\<rparr>"

text \<open>The two statements that store a parsed course: into the tree, then into the map.\<close>

definition store :: "catalog \<Rightarrow> Course \<Rightarrow> catalog" where
  "store cat c =
     \<lparr>bst = Insert_v2 (bst cat) c,
      courseMap = AList.update (courseNumber c) c (courseMap cat)\<rparr>"

definition loop_body_v2 :: "string \<Rightarrow> catalog \<Rightarrow> catalog" where
  "loop_body_v2 line cat =
     (if line = [] then cat else store cat (parse_line_v2 line))"

function load_lines_v2 :: "istream \<Rightarrow> string \<Rightarrow> catalog \<Rightarrow> catalog" where
  "load_lines_v2 file line cat =
     (case getline file line (CHR 0x0A) of
        (file', line') \<Rightarrow>
          if failbit file' then cat
          else load_lines_v2 file' line' (loop_body_v2 line' cat))"
  by pat_completeness auto
termination
  by (relation "measure (\<lambda>(file, line, cat). stream_size file)") (auto dest: getline_decr)

text \<open>
  The validation pass: for every entry of the map, for every prerequisite of its
  course, a warning when \<open>find\<close> does not find the prerequisite in the map.
\<close>

fun check_prereqs :: "string \<Rightarrow> string list \<Rightarrow> course_map \<Rightarrow> message list" where
  "check_prereqs k [] m = []"
| "check_prereqs k (p # ps) m =
     (if map_find m p = None then Warning k p # check_prereqs k ps m
      else check_prereqs k ps m)"

fun validate :: "course_map \<Rightarrow> course_map \<Rightarrow> message list" where
  "validate [] m = []"
| "validate ((k, c) # es) m = check_prereqs k (prerequisites c) m @ validate es m"

definition LoadCourses_v2 :: "filesystem \<Rightarrow> string \<Rightarrow> catalog \<Rightarrow> message list \<times> catalog" where
  "LoadCourses_v2 fs filename cat =
     (case fs filename of
        None \<Rightarrow> ([OpenFailure filename], cat)
      | Some text \<Rightarrow>
          (let cat' = load_lines_v2 (open_stream text) [] cat
           in (validate (courseMap cat') (courseMap cat'), cat')))"

section \<open>Notions used by the properties\<close>

text \<open>
  The ordering invariant of the tree, at every node: the course numbers in the left
  subtree are smaller than the node's, those in the right subtree are greater or equal.
\<close>

fun ordered :: "Node \<Rightarrow> bool" where
  "ordered Null = True"
| "ordered (Node a l r) =
     ((\<forall>x \<in> set (inOrder l). courseNumber x < courseNumber a) \<and>
      (\<forall>x \<in> set (inOrder r). courseNumber a \<le> courseNumber x) \<and>
      ordered l \<and> ordered r)"

text \<open>
  The subtree reached from a node by a path of child links (\<open>False\<close> for the left
  child, \<open>True\<close> for the right one); \<open>Null\<close> when the path leaves the tree.
\<close>

fun subtree_at :: "Node \<Rightarrow> bool list \<Rightarrow> Node" where
  "subtree_at t [] = t"
| "subtree_at Null (d # ds) = Null"
| "subtree_at (Node a l r) (d # ds) = subtree_at (if d then r else l) ds"

text \<open>
  The strings that successive calls of \<open>getline\<close> with one delimiter read from a
  stream, until a call fails: the lines of a file, and the comma-separated fields of a
  line.
\<close>

function read_fields :: "char \<Rightarrow> istream \<Rightarrow> string \<Rightarrow> string list" where
  "read_fields d s str =
     (case getline s str d of
        (s', str') \<Rightarrow> if failbit s' then [] else str' # read_fields d s' str')"
  by pat_completeness auto
termination
  by (relation "measure (\<lambda>(d, s, str). stream_size s)")
    (auto split: prod.splits dest: getline_decr_sym)

definition file_lines :: "string \<Rightarrow> string list" where
  "file_lines text = read_fields (CHR 0x0A) (open_stream text) []"

definition line_fields :: "string \<Rightarrow> string list" where
  "line_fields line = read_fields (CHR '','') (open_stream line) []"

text \<open>A string without the spaces at its front and at its back.\<close>

definition strip_spaces :: "string \<Rightarrow> string" where
  "strip_spaces t =
     rev (dropWhile (\<lambda>c. c = CHR '' '') (rev (dropWhile (\<lambda>c. c = CHR '' '') t)))"

text \<open>
  The main loop starts from empty containers and changes them only by calling the
  loader, any number of times, each time on whatever the file system then holds.
\<close>

inductive reachable_v1 :: "CourseBST \<Rightarrow> bool" where
  new_v1: "reachable_v1 CourseBST_new"
| load_v1: "reachable_v1 b \<Longrightarrow> reachable_v1 (snd (LoadCourses_v1 fs filename b))"

inductive reachable_v2 :: "catalog \<Rightarrow> bool" where
  new_v2: "reachable_v2 catalog_new"
| load_v2: "reachable_v2 cat \<Longrightarrow> reachable_v2 (snd (LoadCourses_v2 fs filename cat))"

text \<open>
  The map holds one entry per key, every entry is filed under the number of its
  course, and every course of the map is also in the tree.
\<close>

definition consistent :: "catalog \<Rightarrow> bool" where
  "consistent cat =
     (distinct (map fst (courseMap cat)) \<and>
      (\<forall>(k, c) \<in> set (courseMap cat).
         courseNumber c = k \<and> c \<in> set (inOrderTraversal (root (bst cat)))))"

text \<open>The prerequisites stored in a tree and in a map.\<close>

definition tree_prereqs :: "Node \<Rightarrow> string set" where
  "tree_prereqs t = (\<Union>c \<in> set (inOrder t). set (prerequisites c))"

definition map_prereqs :: "course_map \<Rightarrow> string set" where
  "map_prereqs m = (\<Union>(k, c) \<in> set m. set (prerequisites c))"

text \<open>The courses that a load of a file with the given text stores, in their order.\<close>

definition courses_v1 :: "string \<Rightarrow> Course list" where
  "courses_v1 text = map parse_line_v1 (filter (\<lambda>l. l \<noteq> []) (file_lines text))"

definition courses_v2 :: "string \<Rightarrow> Course list" where
  "courses_v2 text = map parse_line_v2 (filter (\<lambda>l. l \<noteq> []) (file_lines text))"

text \<open>
  The file system that holds one file, with the given name and text; no other file
  can be opened.
\<close>

definition single_file :: "string \<Rightarrow> string \<Rightarrow> filesystem" where
  "single_file name content = (\<lambda>f. if f = name then Some content else None)"

text \<open>A course written with its three fields, for the examples.\<close>

definition mk_course :: "string \<Rightarrow> string \<Rightarrow> string list \<Rightarrow> Course" where
  "mk_course n t ps = \<lparr>courseNumber = n, courseTitle = t, prerequisites = ps\<rparr>"

text \<open>
  The defining equations of the loops are used by explicit unfolding only.
\<close>

declare read_fields.simps [simp del] read_prereqs_v1.simps [simp del]
  read_prereqs_v2.simps [simp del] load_lines_v1.simps [simp del] load_lines_v2.simps [simp del]

section \<open>The tree: insertion and traversal\<close>

lemma insertNode_addNode: "insertNode t c = addNode t c"
  by (induction t) simp_all

lemma inOrderTraversal_inOrder: "inOrderTraversal t = inOrder t"
  by (induction t) simp_all

lemma set_inOrder_addNode: "set (inOrder (addNode t c)) = insert c (set (inOrder t))"
  by (induction t) auto

lemma mset_inOrder_addNode: "mset (inOrder (addNode t c)) = add_mset c (mset (inOrder t))"
  by (induction t) auto

lemma ordered_addNode: "ordered t \<Longrightarrow> ordered (addNode t c)"
  by (induction t) (auto simp: set_inOrder_addNode)

lemma sorted_inOrder: "ordered t \<Longrightarrow> sorted (map courseNumber (inOrder t))"
proof (induction t)
  case Null
  show ?case by simp
next
  case (Node a l r)
  then show ?case
    by (auto simp: sorted_append) (meson less_imp_le order_trans)
qed

lemma filter_inOrder_addNode:
  "ordered t \<Longrightarrow>
   filter (\<lambda>x. courseNumber x = k) (inOrder (addNode t c)) =
   filter (\<lambda>x. courseNumber x = k) (inOrder t) @ (if courseNumber c = k then [c] else [])"
proof (induction t)
  case Null
  show ?case by simp
next
  case (Node a l r)
  show ?case
  proof (cases "courseNumber c < courseNumber a")
    case True
    have "filter (\<lambda>x. courseNumber x = courseNumber c) (a # inOrder r) = []"
      using Node.prems True by (auto simp: filter_empty_conv)
    with Node True show ?thesis
      by auto
  next
    case False
    with Node show ?thesis
      by auto
  qed
qed

lemma subtree_at_course_in:
  "subtree_at t p = Node a l r \<Longrightarrow> a \<in> set (inOrder t)"
proof (induction t p rule: subtree_at.induct)
  case (3 b l0 r0 d ds)
  then show ?case by (cases d) auto
qed auto

lemma subtree_at_addNode_equal:
  "ordered t \<Longrightarrow> subtree_at t p = Node a l r \<Longrightarrow> courseNumber c = courseNumber a \<Longrightarrow>
   subtree_at (addNode t c) p = Node a l (addNode r c)"
proof (induction t p rule: subtree_at.induct)
  case (1 t)
  then show ?case by simp
next
  case (2 d ds)
  then show ?case by simp
next
  case (3 b l0 r0 d ds)
  show ?case
  proof (cases d)
    case True
    with "3.prems" have sub: "subtree_at r0 ds = Node a l r" by simp
    then have "a \<in> set (inOrder r0)" by (rule subtree_at_course_in)
    with "3.prems" have "\<not> courseNumber c < courseNumber b" by auto
    moreover have "subtree_at (addNode r0 c) ds = Node a l (addNode r c)"
      using "3.IH" "3.prems" True sub by simp
    ultimately show ?thesis using True by simp
  next
    case False
    with "3.prems" have sub: "subtree_at l0 ds = Node a l r" by simp
    then have "a \<in> set (inOrder l0)" by (rule subtree_at_course_in)
    with "3.prems" have "courseNumber c < courseNumber b" by auto
    moreover have "subtree_at (addNode l0 c) ds = Node a l (addNode r c)"
      using "3.IH" "3.prems" False sub by simp
    ultimately show ?thesis using False by simp
  qed
qed

lemma root_foldl_Insert_v1: "root (foldl Insert_v1 b cs) = foldl addNode (root b) cs"
  by (induction cs arbitrary: b) (simp_all add: Insert_v1_def)

lemma foldl_Insert_v2: "foldl Insert_v2 b cs = foldl Insert_v1 b cs"
  by (induction cs arbitrary: b) (simp_all add: Insert_v1_def Insert_v2_def insertNode_addNode)

lemma ordered_foldl_addNode: "ordered t \<Longrightarrow> ordered (foldl addNode t cs)"
  by (induction cs arbitrary: t) (simp_all add: ordered_addNode)

lemma mset_inOrder_foldl:
  "mset (inOrder (foldl addNode t cs)) = mset (inOrder t) + mset cs"
  by (induction cs arbitrary: t) (simp_all add: mset_inOrder_addNode)

lemma filter_inOrder_foldl:
  "ordered t \<Longrightarrow>
   filter (\<lambda>x. courseNumber x = k) (inOrder (foldl addNode t cs)) =
   filter (\<lambda>x. courseNumber x = k) (inOrder t) @ filter (\<lambda>x. courseNumber x = k) cs"
  by (induction cs arbitrary: t) (simp_all add: ordered_addNode filter_inOrder_addNode)

text \<open>
  The traversal of a tree built by insertions alone is the stable sort of the inserted
  courses by course number: it is sorted, it is a permutation of them, and courses
  with the same number keep their order.
\<close>

lemma inOrder_foldl_sort_key:
  "inOrder (foldl addNode Null cs) = sort_key courseNumber cs"
proof -
  let ?ys = "inOrder (foldl addNode Null cs)"
  have "sort_key courseNumber cs = ?ys"
  proof (rule properties_for_sort_key)
    show "mset ?ys = mset cs"
      by (simp add: mset_inOrder_foldl)
  next
    fix k
    show "filter (\<lambda>x. courseNumber k = courseNumber x) ?ys =
      filter (\<lambda>x. courseNumber k = courseNumber x) cs"
      using filter_inOrder_foldl [of Null "courseNumber k" cs] by (simp add: eq_commute)
  next
    have "ordered (foldl addNode Null cs)"
      by (simp add: ordered_foldl_addNode)
    then show "sorted (map courseNumber ?ys)"
      by (rule sorted_inOrder)
  qed
  then show ?thesis
    by simp
qed

text \<open>
  A list sorted by a key is the elements with a smaller key, then those with the key,
  then those with a greater key.
\<close>

lemma sorted_key_blocks:
  "sorted (map f xs) \<Longrightarrow>
   xs = filter (\<lambda>x. f x < k) xs @ filter (\<lambda>x. f x = k) xs @ filter (\<lambda>x. k < f x) xs"
proof (induction xs)
  case Nil
  show ?case by simp
next
  case (Cons x xs)
  then have le: "\<forall>y \<in> set xs. f x \<le> f y" and ih:
    "xs = filter (\<lambda>x. f x < k) xs @ filter (\<lambda>x. f x = k) xs @ filter (\<lambda>x. k < f x) xs"
    by simp_all
  consider "f x < k" | "f x = k" | "k < f x"
    by (rule linorder_cases)
  then show ?case
  proof cases
    case 1
    with ih show ?thesis by auto
  next
    case 2
    with le have "filter (\<lambda>x. f x < k) xs = []"
      by (auto simp: filter_empty_conv)
    with 2 ih show ?thesis by auto
  next
    case 3
    with le have "filter (\<lambda>x. f x < k) xs = []" "filter (\<lambda>x. f x = k) xs = []"
      by (auto simp: filter_empty_conv)
    with 3 ih show ?thesis by auto
  qed
qed

lemma sorted_key_blocks_eq:
  assumes "sorted (map f xs)" and "filter (\<lambda>x. f x = k) xs = zs"
  shows "xs = filter (\<lambda>x. f x < k) xs @ zs @ filter (\<lambda>x. k < f x) xs"
  unfolding assms(2) [symmetric] using assms(1) by (rule sorted_key_blocks)

section \<open>Properties of the tree\<close>

text \<open>
  C1.  Insertion keeps the ordering invariant, in both variants: if it holds at every
  node of a tree, it holds at every node of the tree after \<open>Insert\<close>, and so it holds
  after any sequence of \<open>Insert\<close> calls on the empty tree.  In both variants \<open>Insert\<close>
  adds the course and nothing else to the courses of the tree, so after a sequence of
  calls the tree holds exactly the inserted courses.  A course whose number equals
  that of a node anywhere in an ordered tree is inserted into the right subtree of that
  node, by \<open>addNode\<close> and by \<open>insertNode\<close> alike: the node keeps its place, its
  course and its left subtree, and its new right subtree holds the courses of the old
  one and the new course.
\<close>

theorem insert_keeps_order:
  "(ordered (root b) \<longrightarrow> ordered (root (Insert_v1 b c)) \<and> ordered (root (Insert_v2 b c))) \<and>
   ordered (root (foldl Insert_v1 CourseBST_new cs)) \<and>
   ordered (root (foldl Insert_v2 CourseBST_new cs)) \<and>
   mset (inOrder (root (Insert_v1 b c))) = add_mset c (mset (inOrder (root b))) \<and>
   mset (inOrderTraversal (root (Insert_v2 b c))) = add_mset c (mset (inOrderTraversal (root b))) \<and>
   mset (inOrder (root (foldl Insert_v1 CourseBST_new cs))) = mset cs \<and>
   mset (inOrderTraversal (root (foldl Insert_v2 CourseBST_new cs))) = mset cs \<and>
   (ordered (root b) \<and> subtree_at (root b) p = Node a l r \<and> courseNumber c = courseNumber a \<longrightarrow>
      subtree_at (root (Insert_v1 b c)) p = Node a l (addNode r c) \<and>
      subtree_at (root (Insert_v2 b c)) p = Node a l (insertNode r c) \<and>
      c \<in> set (inOrder (addNode r c)) \<and>
      c \<in> set (inOrderTraversal (insertNode r c)) \<and>
      mset (inOrder (addNode r c)) = add_mset c (mset (inOrder r)) \<and>
      mset (inOrderTraversal (insertNode r c)) = add_mset c (mset (inOrderTraversal r)))"
proof -
  have o1: "ordered (root (foldl Insert_v1 CourseBST_new cs))"
    by (simp add: root_foldl_Insert_v1 CourseBST_new_def ordered_foldl_addNode)
  have o2: "ordered (root (foldl Insert_v2 CourseBST_new cs))"
    using o1 by (simp only: foldl_Insert_v2)
  have step: "ordered (root b) \<longrightarrow> ordered (root (Insert_v1 b c)) \<and> ordered (root (Insert_v2 b c))"
    by (simp add: Insert_v1_def Insert_v2_def insertNode_addNode ordered_addNode)
  have m1: "mset (inOrder (root (Insert_v1 b c))) = add_mset c (mset (inOrder (root b)))"
    by (simp add: Insert_v1_def mset_inOrder_addNode)
  have m2: "mset (inOrderTraversal (root (Insert_v2 b c))) = add_mset c (mset (inOrderTraversal (root b)))"
    by (simp add: Insert_v2_def insertNode_addNode inOrderTraversal_inOrder mset_inOrder_addNode)
  have f1: "mset (inOrder (root (foldl Insert_v1 CourseBST_new cs))) = mset cs"
    by (simp add: root_foldl_Insert_v1 CourseBST_new_def mset_inOrder_foldl)
  have f2: "mset (inOrderTraversal (root (foldl Insert_v2 CourseBST_new cs))) = mset cs"
    using f1 by (simp only: foldl_Insert_v2 inOrderTraversal_inOrder)
  have eq: "ordered (root b) \<and> subtree_at (root b) p = Node a l r \<and> courseNumber c = courseNumber a \<longrightarrow>
      subtree_at (root (Insert_v1 b c)) p = Node a l (addNode r c) \<and>
      subtree_at (root (Insert_v2 b c)) p = Node a l (insertNode r c) \<and>
      c \<in> set (inOrder (addNode r c)) \<and>
      c \<in> set (inOrderTraversal (insertNode r c)) \<and>
      mset (inOrder (addNode r c)) = add_mset c (mset (inOrder r)) \<and>
      mset (inOrderTraversal (insertNode r c)) = add_mset c (mset (inOrderTraversal r))"
    by (simp add: Insert_v1_def Insert_v2_def insertNode_addNode inOrderTraversal_inOrder
        subtree_at_addNode_equal set_inOrder_addNode mset_inOrder_addNode)
  from step o1 o2 m1 m2 f1 f2 eq show ?thesis
    by (intro conjI)
qed

theorem insert_keeps_order_witness:
  "ordered (root (foldl Insert_v2 CourseBST_new
      [mk_course ''CS200'' ''a'' [], mk_course ''CS100'' ''b'' [], mk_course ''CS300'' ''c'' []])) \<and>
   subtree_at (root (foldl Insert_v2 CourseBST_new
      [mk_course ''CS200'' ''a'' [], mk_course ''CS100'' ''b'' [], mk_course ''CS300'' ''c'' []])) [False]
     = Node (mk_course ''CS100'' ''b'' []) Null Null \<and>
   courseNumber (mk_course ''CS100'' ''d'' []) = courseNumber (mk_course ''CS100'' ''b'' []) \<and>
   ordered (root (Insert_v1 (foldl Insert_v2 CourseBST_new
      [mk_course ''CS200'' ''a'' [], mk_course ''CS100'' ''b'' [], mk_course ''CS300'' ''c'' []])
      (mk_course ''CS100'' ''d'' []))) \<and>
   ordered (root (Insert_v2 (foldl Insert_v2 CourseBST_new
      [mk_course ''CS200'' ''a'' [], mk_course ''CS100'' ''b'' [], mk_course ''CS300'' ''c'' []])
      (mk_course ''CS100'' ''d'' []))) \<and>
   subtree_at (root (Insert_v1 (foldl Insert_v2 CourseBST_new
      [mk_course ''CS200'' ''a'' [], mk_course ''CS100'' ''b'' [], mk_course ''CS300'' ''c'' []])
      (mk_course ''CS100'' ''d'' []))) [False]
     = Node (mk_course ''CS100'' ''b'' []) Null (Node (mk_course ''CS100'' ''d'' []) Null Null) \<and>
   subtree_at (root (Insert_v2 (foldl Insert_v2 CourseBST_new
      [mk_course ''CS200'' ''a'' [], mk_course ''CS100'' ''b'' [], mk_course ''CS300'' ''c'' []])
      (mk_course ''CS100'' ''d'' []))) [False]
     = Node (mk_course ''CS100'' ''b'' []) Null (Node (mk_course ''CS100'' ''d'' []) Null Null) \<and>
   mk_course ''CS100'' ''d'' [] \<in> set (inOrderTraversal (insertNode Null (mk_course ''CS100'' ''d'' []))) \<and>
   inOrderTraversal (root (Insert_v2 (foldl Insert_v2 CourseBST_new
      [mk_course ''CS200'' ''a'' [], mk_course ''CS100'' ''b'' [], mk_course ''CS300'' ''c'' []])
      (mk_course ''CS100'' ''d'' [])))
     = [mk_course ''CS100'' ''b'' [], mk_course ''CS100'' ''d'' [], mk_course ''CS200'' ''a'' [],
        mk_course ''CS300'' ''c'' []]"
  using insert_keeps_order [of "foldl Insert_v2 CourseBST_new
      [mk_course ''CS200'' ''a'' [], mk_course ''CS100'' ''b'' [], mk_course ''CS300'' ''c'' []]"
      "mk_course ''CS100'' ''d'' []"
      "[mk_course ''CS200'' ''a'' [], mk_course ''CS100'' ''b'' [], mk_course ''CS300'' ''c'' []]"
      "[False]" "mk_course ''CS100'' ''b'' []" Null Null]
  by (simp add: Insert_v1_def Insert_v2_def CourseBST_new_def mk_course_def)

text \<open>
  C2.  After any sequence of insertions into the empty tree, in either variant, the
  in-order traversal lists exactly the inserted courses (each as often as it was
  inserted), in non-decreasing order of course number, and the courses with any one
  number in the order of their insertion.  They are consecutive: the listing is the
  courses with a smaller number, then the inserted courses with the number, in the
  order of insertion, then the courses with a greater number.  Together these say
  that the listing is the stable sort of the inserted sequence.  The traversal of the
  empty tree is empty and prints nothing.
\<close>

theorem listing_is_stable_sort:
  "sorted (map courseNumber (inOrder (root (foldl Insert_v1 CourseBST_new cs)))) \<and>
   mset (inOrder (root (foldl Insert_v1 CourseBST_new cs))) = mset cs \<and>
   (\<forall>k. filter (\<lambda>x. courseNumber x = k) (inOrder (root (foldl Insert_v1 CourseBST_new cs)))
        = filter (\<lambda>x. courseNumber x = k) cs) \<and>
   (\<forall>k. inOrder (root (foldl Insert_v1 CourseBST_new cs))
        = filter (\<lambda>x. courseNumber x < k) (inOrder (root (foldl Insert_v1 CourseBST_new cs))) @
          filter (\<lambda>x. courseNumber x = k) cs @
          filter (\<lambda>x. k < courseNumber x) (inOrder (root (foldl Insert_v1 CourseBST_new cs)))) \<and>
   inOrder (root (foldl Insert_v1 CourseBST_new cs)) = sort_key courseNumber cs \<and>
   inOrderTraversal (root (foldl Insert_v2 CourseBST_new cs)) = sort_key courseNumber cs \<and>
   inOrder (root CourseBST_new) = [] \<and> inOrderTraversal (root CourseBST_new) = [] \<and>
   PrintCourseList CourseBST_new = [] \<and> PrintSortedCourses CourseBST_new = []"
proof -
  let ?ys = "inOrder (root (foldl Insert_v1 CourseBST_new cs))"
  have eq: "?ys = sort_key courseNumber cs"
    by (simp add: root_foldl_Insert_v1 CourseBST_new_def inOrder_foldl_sort_key)
  have srt: "sorted (map courseNumber ?ys)"
    unfolding eq by simp
  have perm: "mset ?ys = mset cs"
    unfolding eq by simp
  have stable: "\<forall>k. filter (\<lambda>x. courseNumber x = k) ?ys = filter (\<lambda>x. courseNumber x = k) cs"
    unfolding eq by (simp add: sort_key_stable)
  have blocks: "\<forall>k. ?ys = filter (\<lambda>x. courseNumber x < k) ?ys @
      filter (\<lambda>x. courseNumber x = k) cs @ filter (\<lambda>x. k < courseNumber x) ?ys"
  proof
    fix k
    have "filter (\<lambda>x. courseNumber x = k) ?ys = filter (\<lambda>x. courseNumber x = k) cs"
      using stable by (rule spec)
    with srt show "?ys = filter (\<lambda>x. courseNumber x < k) ?ys @
      filter (\<lambda>x. courseNumber x = k) cs @ filter (\<lambda>x. k < courseNumber x) ?ys"
      by (rule sorted_key_blocks_eq)
  qed
  have v2: "inOrderTraversal (root (foldl Insert_v2 CourseBST_new cs)) = sort_key courseNumber cs"
    by (simp only: foldl_Insert_v2 inOrderTraversal_inOrder eq)
  have empty: "inOrder (root CourseBST_new) = [] \<and> inOrderTraversal (root CourseBST_new) = [] \<and>
      PrintCourseList CourseBST_new = [] \<and> PrintSortedCourses CourseBST_new = []"
    by (simp add: CourseBST_new_def PrintCourseList_def PrintSortedCourses_def)
  from srt perm stable blocks eq v2 empty show ?thesis
    by blast
qed

section \<open>Streams, fields and lines\<close>

lemma getline_failed: "failbit s \<Longrightarrow> getline s str d = (s, str)"
  by (simp add: getline_def)

lemma getline_fst_indep: "fst (getline s str d) = fst (getline s str' d)"
  by (simp add: getline_def split: list.splits)

lemma getline_snd_indep:
  "\<not> failbit (fst (getline s str d)) \<Longrightarrow> snd (getline s str d) = snd (getline s str' d)"
  by (auto simp: getline_def split: list.splits if_splits)

lemma getline_fail_empty: "failbit (fst (getline s [] d)) \<Longrightarrow> snd (getline s [] d) = []"
  by (auto simp: getline_def split: list.splits if_splits)

lemma getline_open_stream:
  "line \<noteq> [] \<Longrightarrow>
   \<not> failbit (fst (getline (open_stream line) str d)) \<and>
   snd (getline (open_stream line) str d) = takeWhile (\<lambda>c. c \<noteq> d) line"
  by (simp add: getline_def open_stream_def split: list.splits)

lemma read_fields_unfold:
  "read_fields d s str =
     (if failbit (fst (getline s str d)) then []
      else snd (getline s str d) # read_fields d (fst (getline s str d)) (snd (getline s str d)))"
  by (subst read_fields.simps) (simp add: case_prod_beta)

lemma read_fields_indep_aux:
  "read_fields d s str = read_fields d s str'"
proof (induction d s str arbitrary: str' rule: read_fields.induct)
  case (1 d s str)
  show ?case
  proof (cases "failbit (fst (getline s str d))")
    case True
    then have "failbit (fst (getline s str' d))"
      using getline_fst_indep [of s str d str'] by simp
    with True show ?thesis
      by (simp add: read_fields_unfold [of d s str] read_fields_unfold [of d s str'])
  next
    case False
    then have f': "\<not> failbit (fst (getline s str' d))"
      using getline_fst_indep [of s str d str'] by simp
    have "read_fields d s str = snd (getline s str d) # read_fields d (fst (getline s str d)) (snd (getline s str d))"
      using False by (simp add: read_fields_unfold [of d s str])
    moreover have "read_fields d s str' = snd (getline s str' d) # read_fields d (fst (getline s str' d)) (snd (getline s str' d))"
      using f' by (simp add: read_fields_unfold [of d s str'])
    moreover have "snd (getline s str d) = snd (getline s str' d)"
      using False by (rule getline_snd_indep)
    moreover have "fst (getline s str d) = fst (getline s str' d)"
      by (rule getline_fst_indep)
    ultimately show ?thesis
      by simp
  qed
qed

lemma read_fields_failed: "failbit s \<Longrightarrow> read_fields d s str = []"
  by (simp add: read_fields_unfold [of d s str] getline_failed)


lemma read_prereqs_v2_unfold:
  "read_prereqs_v2 ss token c =
     (if failbit (fst (getline ss token (CHR '',''))) then c
      else read_prereqs_v2 (fst (getline ss token (CHR '','')))
             (trim_v2 (snd (getline ss token (CHR '','')))) 
             (if trim_v2 (snd (getline ss token (CHR '',''))) \<noteq> []
              then c\<lparr>prerequisites := prerequisites c @ [trim_v2 (snd (getline ss token (CHR '','')))]\<rparr>
              else c))"
  by (subst read_prereqs_v2.simps) (simp add: case_prod_beta Let_def)

lemma read_prereqs_v1_unfold:
  "read_prereqs_v1 ss token c =
     (if failbit (fst (getline ss token (CHR '',''))) then c
      else read_prereqs_v1 (fst (getline ss token (CHR '','')))
             (trim_v1 (snd (getline ss token (CHR '','')))) 
             (if trim_v1 (snd (getline ss token (CHR '',''))) \<noteq> []
              then c\<lparr>prerequisites := prerequisites c @ [trim_v1 (snd (getline ss token (CHR '','')))]\<rparr>
              else c))"
  by (subst read_prereqs_v1.simps) (simp add: case_prod_beta Let_def)

lemma read_prereqs_v2_fields:
  "read_prereqs_v2 ss token c =
     c\<lparr>prerequisites := prerequisites c @
          filter (\<lambda>t. t \<noteq> []) (map trim_v2 (read_fields (CHR '','') ss token))\<rparr>"
proof (induction ss token c rule: read_prereqs_v2.induct)
  case (1 ss token c)
  let ?g = "getline ss token (CHR '','')"
  show ?case
  proof (cases "failbit (fst ?g)")
    case True
    then show ?thesis
      by (simp add: read_prereqs_v2_unfold [of ss token c] read_fields_unfold [of _ ss token])
  next
    case False
    let ?t = "trim_v2 (snd ?g)"
    let ?c' = "if ?t \<noteq> [] then c\<lparr>prerequisites := prerequisites c @ [?t]\<rparr> else c"
    have ih: "read_prereqs_v2 (fst ?g) ?t ?c' =
        ?c'\<lparr>prerequisites := prerequisites ?c' @
          filter (\<lambda>t. t \<noteq> []) (map trim_v2 (read_fields (CHR '','') (fst ?g) ?t))\<rparr>"
      using "1.IH" [OF prod.collapse False refl] by simp
    have rf: "read_fields (CHR '','') ss token = snd ?g # read_fields (CHR '','') (fst ?g) ?t"
      using False read_fields_indep_aux [of "CHR '',''" "fst ?g" "snd ?g" ?t]
      by (simp add: read_fields_unfold [of _ ss token])
    have "read_prereqs_v2 ss token c = read_prereqs_v2 (fst ?g) ?t ?c'"
      using False by (simp add: read_prereqs_v2_unfold [of ss token c])
    with ih rf show ?thesis
      by simp
  qed
qed

lemma read_prereqs_v1_fields:
  "read_prereqs_v1 ss token c =
     c\<lparr>prerequisites := prerequisites c @
          filter (\<lambda>t. t \<noteq> []) (map trim_v1 (read_fields (CHR '','') ss token))\<rparr>"
proof (induction ss token c rule: read_prereqs_v1.induct)
  case (1 ss token c)
  let ?g = "getline ss token (CHR '','')"
  show ?case
  proof (cases "failbit (fst ?g)")
    case True
    then show ?thesis
      by (simp add: read_prereqs_v1_unfold [of ss token c] read_fields_unfold [of _ ss token])
  next
    case False
    let ?t = "trim_v1 (snd ?g)"
    let ?c' = "if ?t \<noteq> [] then c\<lparr>prerequisites := prerequisites c @ [?t]\<rparr> else c"
    have ih: "read_prereqs_v1 (fst ?g) ?t ?c' =
        ?c'\<lparr>prerequisites := prerequisites ?c' @
          filter (\<lambda>t. t \<noteq> []) (map trim_v1 (read_fields (CHR '','') (fst ?g) ?t))\<rparr>"
      using "1.IH" [OF prod.collapse False refl] by simp
    have rf: "read_fields (CHR '','') ss token = snd ?g # read_fields (CHR '','') (fst ?g) ?t"
      using False read_fields_indep_aux [of "CHR '',''" "fst ?g" "snd ?g" ?t]
      by (simp add: read_fields_unfold [of _ ss token])
    have "read_prereqs_v1 ss token c = read_prereqs_v1 (fst ?g) ?t ?c'"
      using False by (simp add: read_prereqs_v1_unfold [of ss token c])
    with ih rf show ?thesis
      by simp
  qed
qed

subsection \<open>Trimming\<close>

text \<open>
  The two \<open>erase\<close> calls of variant 2 remove the spaces at the front and at the back
  of a token, all of them.
\<close>

lemma erase_first_not_of:
  "erase t 0 (find_first_not_of t '' '') = dropWhile (\<lambda>c. c = CHR '' '') t"
proof (induction t)
  case Nil
  show ?case by (simp add: erase_def)
next
  case (Cons x xs)
  then show ?case
    by (cases "find_first_not_of xs '' ''") (auto simp: erase_def)
qed

lemma find_last_not_of_None:
  "find_last_not_of t cs = None \<longleftrightarrow> set t \<subseteq> set cs"
  by (induction t) (auto split: option.splits)

lemma find_last_not_of_less:
  "find_last_not_of t cs = Some i \<Longrightarrow> i < length t"
  by (induction t arbitrary: i) (auto split: option.splits if_splits)

lemma erase_last_not_of:
  "erase t (case find_last_not_of t '' '' of None \<Rightarrow> 0 | Some i \<Rightarrow> i + 1) None =
   rev (dropWhile (\<lambda>c. c = CHR '' '') (rev t))"
proof (induction t)
  case Nil
  show ?case by (simp add: erase_def)
next
  case (Cons x xs)
  show ?case
  proof (cases "find_last_not_of xs '' ''")
    case None
    then have "set xs \<subseteq> {CHR '' ''}"
      using find_last_not_of_None [of xs "'' ''"] by simp
    then have "dropWhile (\<lambda>c. c = CHR '' '') (rev xs @ [x]) = dropWhile (\<lambda>c. c = CHR '' '') [x]"
      by (intro dropWhile_append2) auto
    with None show ?thesis
      by (simp add: erase_def)
  next
    case (Some i)
    then have "\<not> set xs \<subseteq> {CHR '' ''}"
      using find_last_not_of_None [of xs "'' ''"] by simp
    then have "\<exists>y \<in> set (rev xs). \<not> y = CHR '' ''"
      by auto
    then have "dropWhile (\<lambda>c. c = CHR '' '') (rev xs @ [x]) = dropWhile (\<lambda>c. c = CHR '' '') (rev xs) @ [x]"
      by (metis (mono_tags, lifting) dropWhile_append1)
    with Some Cons show ?thesis
      by (simp add: erase_def)
  qed
qed

lemma trim_v2_strip_spaces: "trim_v2 t = strip_spaces t"
  by (simp add: trim_v2_def strip_spaces_def Let_def erase_first_not_of erase_last_not_of)

subsection \<open>Parsing a line\<close>

lemma line_fields_cases:
  assumes "line \<noteq> []"
  shows "line_fields line =
    (if failbit (fst (getline (fst (getline (open_stream line) [] (CHR '',''))) [] (CHR '','')))
     then [takeWhile (\<lambda>c. c \<noteq> CHR '','') line]
     else takeWhile (\<lambda>c. c \<noteq> CHR '','') line #
          snd (getline (fst (getline (open_stream line) [] (CHR '',''))) [] (CHR '','')) #
          read_fields (CHR '','')
            (fst (getline (fst (getline (open_stream line) [] (CHR '',''))) [] (CHR '',''))) [])"
proof -
  let ?g1 = "getline (open_stream line) [] (CHR '','')"
  let ?g2 = "getline (fst ?g1) [] (CHR '','')"
  have g1: "\<not> failbit (fst ?g1)" "snd ?g1 = takeWhile (\<lambda>c. c \<noteq> CHR '','') line"
    using getline_open_stream [OF assms, of "[]" "CHR '',''"] by simp_all
  have "line_fields line = snd ?g1 # read_fields (CHR '','') (fst ?g1) (snd ?g1)"
    using g1(1) by (simp add: line_fields_def read_fields_unfold [of _ "open_stream line"])
  also have "read_fields (CHR '','') (fst ?g1) (snd ?g1) = read_fields (CHR '','') (fst ?g1) []"
    by (rule read_fields_indep_aux)
  also have "\<dots> = (if failbit (fst ?g2) then []
      else snd ?g2 # read_fields (CHR '','') (fst ?g2) (snd ?g2))"
    by (rule read_fields_unfold)
  also have "read_fields (CHR '','') (fst ?g2) (snd ?g2) = read_fields (CHR '','') (fst ?g2) []"
    by (rule read_fields_indep_aux)
  finally show ?thesis
    using g1(2) by simp
qed

lemma parse_line_v2_fields:
  assumes "line \<noteq> []"
  shows "parse_line_v2 line =
    \<lparr>courseNumber = hd (line_fields line),
     courseTitle = (if length (line_fields line) < 2 then [] else line_fields line ! 1),
     prerequisites = filter (\<lambda>t. t \<noteq> []) (map strip_spaces (drop 2 (line_fields line)))\<rparr>"
proof -
  let ?g1 = "getline (open_stream line) [] (CHR '','')"
  let ?g2 = "getline (fst ?g1) [] (CHR '','')"
  have g1: "snd ?g1 = takeWhile (\<lambda>c. c \<noteq> CHR '','') line"
    using getline_open_stream [OF assms, of "[]" "CHR '',''"] by simp
  have p: "parse_line_v2 line =
      \<lparr>courseNumber = snd ?g1, courseTitle = snd ?g2,
       prerequisites = filter (\<lambda>t. t \<noteq> []) (map strip_spaces (read_fields (CHR '','') (fst ?g2) []))\<rparr>"
    by (simp add: parse_line_v2_def Let_def case_prod_beta read_prereqs_v2_fields
        trim_v2_strip_spaces [abs_def])
  show ?thesis
  proof (cases "failbit (fst ?g2)")
    case True
    then have "snd ?g2 = []" "read_fields (CHR '','') (fst ?g2) [] = []"
      by (simp_all add: getline_fail_empty read_fields_failed)
    with True p g1 show ?thesis
      by (simp add: line_fields_cases [OF assms])
  next
    case False
    with p g1 show ?thesis
      by (simp add: line_fields_cases [OF assms])
  qed
qed

lemma parse_line_v1_fields:
  assumes "line \<noteq> []"
  shows "parse_line_v1 line =
    \<lparr>courseNumber = hd (line_fields line),
     courseTitle = (if length (line_fields line) < 2 then [] else line_fields line ! 1),
     prerequisites = filter (\<lambda>t. t \<noteq> []) (map trim_v1 (drop 2 (line_fields line)))\<rparr>"
proof -
  let ?g1 = "getline (open_stream line) [] (CHR '','')"
  let ?g2 = "getline (fst ?g1) [] (CHR '','')"
  have g1: "snd ?g1 = takeWhile (\<lambda>c. c \<noteq> CHR '','') line"
    using getline_open_stream [OF assms, of "[]" "CHR '',''"] by simp
  have p: "parse_line_v1 line =
      \<lparr>courseNumber = snd ?g1, courseTitle = snd ?g2,
       prerequisites = filter (\<lambda>t. t \<noteq> []) (map trim_v1 (read_fields (CHR '','') (fst ?g2) []))\<rparr>"
    by (simp add: parse_line_v1_def Let_def case_prod_beta read_prereqs_v1_fields)
  show ?thesis
  proof (cases "failbit (fst ?g2)")
    case True
    then have "snd ?g2 = []" "read_fields (CHR '','') (fst ?g2) [] = []"
      by (simp_all add: getline_fail_empty read_fields_failed)
    with True p g1 show ?thesis
      by (simp add: line_fields_cases [OF assms])
  next
    case False
    with p g1 show ?thesis
      by (simp add: line_fields_cases [OF assms])
  qed
qed

lemma hd_line_fields:
  "line \<noteq> [] \<Longrightarrow> line_fields line \<noteq> [] \<and> hd (line_fields line) = takeWhile (\<lambda>c. c \<noteq> CHR '','') line"
  by (simp add: line_fields_cases)

lemma line_fields_no_comma:
  assumes "line \<noteq> []" and "CHR '','' \<notin> set line"
  shows "line_fields line = [line]"
proof -
  have tw: "takeWhile (\<lambda>c. c \<noteq> CHR '','') line = line"
    using assms(2) by (auto simp: takeWhile_eq_all_conv)
  have dw: "dropWhile (\<lambda>c. c \<noteq> CHR '','') line = []"
    using assms(2) by (auto simp: dropWhile_eq_Nil_conv)
  have "eofbit (fst (getline (open_stream line) [] (CHR '','')))"
    using assms(1) by (simp add: getline_def open_stream_def dw)
  then have "failbit (fst (getline (fst (getline (open_stream line) [] (CHR '',''))) [] (CHR '','')))"
    by (simp add: getline_def)
  then show ?thesis
    using tw by (simp add: line_fields_cases [OF assms(1)])
qed

subsection \<open>The loop over the lines\<close>

lemma load_lines_v2_unfold:
  "load_lines_v2 inp line cat =
     (if failbit (fst (getline inp line (CHR 0x0A))) then cat
      else load_lines_v2 (fst (getline inp line (CHR 0x0A))) (snd (getline inp line (CHR 0x0A)))
             (loop_body_v2 (snd (getline inp line (CHR 0x0A))) cat))"
  by (subst load_lines_v2.simps) (simp add: case_prod_beta)

lemma load_lines_v1_unfold:
  "load_lines_v1 inp line b =
     (if failbit (fst (getline inp line (CHR 0x0A))) then b
      else load_lines_v1 (fst (getline inp line (CHR 0x0A))) (snd (getline inp line (CHR 0x0A)))
             (loop_body_v1 (snd (getline inp line (CHR 0x0A))) b))"
  by (subst load_lines_v1.simps) (simp add: case_prod_beta)

lemma load_lines_v2_fields:
  "load_lines_v2 inp line cat =
   foldl (\<lambda>cat l. loop_body_v2 l cat) cat (read_fields (CHR 0x0A) inp line)"
proof (induction inp line cat rule: load_lines_v2.induct)
  case (1 inp line cat)
  show ?case
  proof (cases "failbit (fst (getline inp line (CHR 0x0A)))")
    case True
    then show ?thesis
      by (simp add: load_lines_v2_unfold [of inp line cat] read_fields_unfold [of _ inp line])
  next
    case False
    with "1.IH" [OF prod.collapse False] show ?thesis
      by (simp add: load_lines_v2_unfold [of inp line cat] read_fields_unfold [of _ inp line])
  qed
qed

lemma load_lines_v1_fields:
  "load_lines_v1 inp line b =
   foldl (\<lambda>b l. loop_body_v1 l b) b (read_fields (CHR 0x0A) inp line)"
proof (induction inp line b rule: load_lines_v1.induct)
  case (1 inp line b)
  show ?case
  proof (cases "failbit (fst (getline inp line (CHR 0x0A)))")
    case True
    then show ?thesis
      by (simp add: load_lines_v1_unfold [of inp line b] read_fields_unfold [of _ inp line])
  next
    case False
    with "1.IH" [OF prod.collapse False] show ?thesis
      by (simp add: load_lines_v1_unfold [of inp line b] read_fields_unfold [of _ inp line])
  qed
qed

lemma foldl_loop_body_v2:
  "foldl (\<lambda>cat l. loop_body_v2 l cat) cat ls =
   foldl store cat (map parse_line_v2 (filter (\<lambda>l. l \<noteq> []) ls))"
  by (induction ls arbitrary: cat) (simp_all add: loop_body_v2_def)

lemma foldl_loop_body_v1:
  "foldl (\<lambda>b l. loop_body_v1 l b) b ls =
   foldl Insert_v1 b (map parse_line_v1 (filter (\<lambda>l. l \<noteq> []) ls))"
  by (induction ls arbitrary: b) (simp_all add: loop_body_v1_def)

lemma LoadCourses_v2_Some:
  "fs f = Some text \<Longrightarrow> snd (LoadCourses_v2 fs f cat) = foldl store cat (courses_v2 text)"
  by (simp add: LoadCourses_v2_def Let_def load_lines_v2_fields foldl_loop_body_v2
      courses_v2_def file_lines_def)

lemma LoadCourses_v1_Some:
  "fs f = Some text \<Longrightarrow> snd (LoadCourses_v1 fs f b) = foldl Insert_v1 b (courses_v1 text)"
  by (simp add: LoadCourses_v1_def load_lines_v1_fields foldl_loop_body_v1
      courses_v1_def file_lines_def)

lemma LoadCourses_v2_None: "fs f = None \<Longrightarrow> LoadCourses_v2 fs f cat = ([OpenFailure f], cat)"
  by (simp add: LoadCourses_v2_def)

lemma LoadCourses_v1_None: "fs f = None \<Longrightarrow> LoadCourses_v1 fs f b = ([OpenFailure f], b)"
  by (simp add: LoadCourses_v1_def)

lemma reachable_v2_stores: "reachable_v2 cat \<Longrightarrow> \<exists>cs. cat = foldl store catalog_new cs"
proof (induction rule: reachable_v2.induct)
  case new_v2
  have "catalog_new = foldl store catalog_new []" by simp
  then show ?case by blast
next
  case (load_v2 cat fs filename)
  then obtain cs where cs: "cat = foldl store catalog_new cs" by blast
  show ?case
  proof (cases "fs filename")
    case None
    with cs show ?thesis
      by (auto simp: LoadCourses_v2_None)
  next
    case (Some content)
    then have "snd (LoadCourses_v2 fs filename cat) = foldl store catalog_new (cs @ courses_v2 content)"
      using cs by (simp add: LoadCourses_v2_Some)
    then show ?thesis by blast
  qed
qed

lemma reachable_v1_inserts: "reachable_v1 b \<Longrightarrow> \<exists>cs. b = foldl Insert_v1 CourseBST_new cs"
proof (induction rule: reachable_v1.induct)
  case new_v1
  have "CourseBST_new = foldl Insert_v1 CourseBST_new []" by simp
  then show ?case by blast
next
  case (load_v1 b fs filename)
  then obtain cs where cs: "b = foldl Insert_v1 CourseBST_new cs" by blast
  show ?case
  proof (cases "fs filename")
    case None
    with cs show ?thesis
      by (auto simp: LoadCourses_v1_None)
  next
    case (Some content)
    then have "snd (LoadCourses_v1 fs filename b) = foldl Insert_v1 CourseBST_new (cs @ courses_v1 content)"
      using cs by (simp add: LoadCourses_v1_Some)
    then show ?thesis by blast
  qed
qed

section \<open>Lookup\<close>

lemma search_absent: "k \<notin> courseNumber ` set (inOrder t) \<Longrightarrow> search t k = Null"
  by (induction t) auto

lemma search_addNode_found:
  "search t k = Node a l r \<Longrightarrow> \<exists>l' r'. search (addNode t c) k = Node a l' r'"
  by (induction t) (auto split: if_splits)

lemma search_addNode_new:
  "search t k = Null \<Longrightarrow>
   search (addNode t c) k = (if courseNumber c = k then Node c Null Null else Null)"
  by (induction t) (auto split: if_splits)

lemma search_foldl_found:
  "search t k = Node a l r \<Longrightarrow> \<exists>l' r'. search (foldl addNode t cs) k = Node a l' r'"
proof (induction cs arbitrary: t l r)
  case Nil
  then show ?case by simp
next
  case (Cons x xs)
  from search_addNode_found [OF Cons.prems, of x]
  obtain l' r' where "search (addNode t x) k = Node a l' r'" by blast
  from Cons.IH [OF this] show ?case by simp
qed

lemma search_foldl_first:
  "search t k = Null \<Longrightarrow> filter (\<lambda>x. courseNumber x = k) cs = c # rest \<Longrightarrow>
   \<exists>l r. search (foldl addNode t cs) k = Node c l r"
proof (induction cs arbitrary: t)
  case Nil
  then show ?case by simp
next
  case (Cons x xs)
  show ?case
  proof (cases "courseNumber x = k")
    case True
    with Cons.prems have "x = c" by simp
    have "search (addNode t x) k = Node x Null Null"
      using Cons.prems(1) True by (simp add: search_addNode_new)
    from search_foldl_found [OF this, of xs] show ?thesis
      using \<open>x = c\<close> by simp
  next
    case False
    then have "search (addNode t x) k = Null"
      using Cons.prems(1) by (simp add: search_addNode_new)
    moreover have "filter (\<lambda>x. courseNumber x = k) xs = c # rest"
      using Cons.prems(2) False by simp
    ultimately show ?thesis
      using Cons.IH by simp
  qed
qed

lemma bst_foldl_store: "bst (foldl store cat cs) = foldl Insert_v2 (bst cat) cs"
  by (induction cs arbitrary: cat) (simp_all add: store_def)

lemma map_of_foldl_store:
  "map_of (courseMap (foldl store cat cs)) k =
     (if filter (\<lambda>x. courseNumber x = k) cs = [] then map_of (courseMap cat) k
      else Some (last (filter (\<lambda>x. courseNumber x = k) cs)))"
proof (induction cs rule: rev_induct)
  case Nil
  show ?case by simp
next
  case (snoc x xs)
  then show ?case
    by (simp add: store_def update_conv')
qed

text \<open>
  C3, as amended.  Let a course number have been inserted at least once, in a sequence
  of insertions into empty containers.  In variant 2 the lookup in the map finds the
  course inserted last under that number, and \<open>PrintCourseDetails\<close> prints it, while
  the sorted listing holds every course inserted under the number, in the order of
  insertion.  In variant 1, which has no map, the lookup is the search in the tree: it
  finds the course inserted first under the number, and \<open>PrintCourse\<close> prints that one;
  the listing holds every course inserted under the number as well.  Every catalog
  that the loader can build is the result of such a sequence
  (\<open>reachable_v1_inserts\<close>, \<open>reachable_v2_stores\<close>).
\<close>

theorem lookup_last_or_first:
  "filter (\<lambda>x. courseNumber x = X) cs \<noteq> [] \<longrightarrow>
     map_find (courseMap (foldl store catalog_new cs)) X
       = Some (last (filter (\<lambda>x. courseNumber x = X) cs)) \<and>
     PrintCourseDetails X (courseMap (foldl store catalog_new cs))
       = course_details (last (filter (\<lambda>x. courseNumber x = X) cs)) \<and>
     filter (\<lambda>x. courseNumber x = X) (inOrderTraversal (root (bst (foldl store catalog_new cs))))
       = filter (\<lambda>x. courseNumber x = X) cs \<and>
     (\<exists>l r. search (root (foldl Insert_v1 CourseBST_new cs)) X
       = Node (hd (filter (\<lambda>x. courseNumber x = X) cs)) l r) \<and>
     PrintCourse (foldl Insert_v1 CourseBST_new cs) X
       = course_details (hd (filter (\<lambda>x. courseNumber x = X) cs)) \<and>
     filter (\<lambda>x. courseNumber x = X) (inOrder (root (foldl Insert_v1 CourseBST_new cs)))
       = filter (\<lambda>x. courseNumber x = X) cs"
proof
  let ?f = "filter (\<lambda>x. courseNumber x = X) cs"
  assume ne: "?f \<noteq> []"
  have m: "map_find (courseMap (foldl store catalog_new cs)) X = Some (last ?f)"
    using ne by (simp add: map_find_def map_of_foldl_store)
  have t1: "filter (\<lambda>x. courseNumber x = X) (inOrder (root (foldl Insert_v1 CourseBST_new cs))) = ?f"
    using filter_inOrder_foldl [of Null X cs]
    by (simp add: root_foldl_Insert_v1 CourseBST_new_def)
  have t2: "filter (\<lambda>x. courseNumber x = X)
      (inOrderTraversal (root (bst (foldl store catalog_new cs)))) = ?f"
    using t1 by (simp add: bst_foldl_store foldl_Insert_v2 inOrderTraversal_inOrder catalog_new_def)
  from ne obtain c rest where f: "?f = c # rest"
    by (cases ?f) auto
  from search_foldl_first [OF _ f, of Null]
  obtain l r where s: "search (root (foldl Insert_v1 CourseBST_new cs)) X = Node c l r"
    by (auto simp: root_foldl_Insert_v1 CourseBST_new_def)
  have p1: "PrintCourseDetails X (courseMap (foldl store catalog_new cs)) = course_details (last ?f)"
    by (simp add: PrintCourseDetails_def m)
  have p2: "PrintCourse (foldl Insert_v1 CourseBST_new cs) X = course_details (hd ?f)"
    by (simp add: PrintCourse_def s f)
  from m p1 t2 s f p2 t1
  show "map_find (courseMap (foldl store catalog_new cs)) X = Some (last ?f) \<and>
     PrintCourseDetails X (courseMap (foldl store catalog_new cs)) = course_details (last ?f) \<and>
     filter (\<lambda>x. courseNumber x = X) (inOrderTraversal (root (bst (foldl store catalog_new cs)))) = ?f \<and>
     (\<exists>l r. search (root (foldl Insert_v1 CourseBST_new cs)) X = Node (hd ?f) l r) \<and>
     PrintCourse (foldl Insert_v1 CourseBST_new cs) X = course_details (hd ?f) \<and>
     filter (\<lambda>x. courseNumber x = X) (inOrder (root (foldl Insert_v1 CourseBST_new cs))) = ?f"
    by simp
qed

theorem lookup_last_or_first_witness:
  "filter (\<lambda>x. courseNumber x = ''CS100'')
     [mk_course ''CS100'' ''first'' [], mk_course ''CS200'' ''other'' [], mk_course ''CS100'' ''second'' []] \<noteq> [] \<and>
   map_find (courseMap (foldl store catalog_new
     [mk_course ''CS100'' ''first'' [], mk_course ''CS200'' ''other'' [], mk_course ''CS100'' ''second'' []])) ''CS100''
     = Some (mk_course ''CS100'' ''second'' []) \<and>
   PrintCourse (foldl Insert_v1 CourseBST_new
     [mk_course ''CS100'' ''first'' [], mk_course ''CS200'' ''other'' [], mk_course ''CS100'' ''second'' []]) ''CS100''
     = course_details (mk_course ''CS100'' ''first'' [])"
  using lookup_last_or_first [of "''CS100''"
      "[mk_course ''CS100'' ''first'' [], mk_course ''CS200'' ''other'' [], mk_course ''CS100'' ''second'' []]"]
  by (simp add: mk_course_def)

text \<open>
  Without the amendment C3 fails in variant 1: after loading a file with two lines
  for \<open>CS100\<close>, \<open>PrintCourse\<close> prints the first of the two courses, not the one
  inserted most recently, while the listing holds both.
\<close>

theorem lookup_v1_first_counterexample:
  "PrintCourse (snd (LoadCourses_v1 (single_file ''courses.csv'' ''CS100,first\<newline>CS100,second'') ''courses.csv'' CourseBST_new)) ''CS100''
     = [''CS100, first'', ''Prerequisites: None''] \<and>
   PrintCourse (snd (LoadCourses_v1 (single_file ''courses.csv'' ''CS100,first\<newline>CS100,second'') ''courses.csv'' CourseBST_new)) ''CS100''
     \<noteq> course_details (mk_course ''CS100'' ''second'' []) \<and>
   inOrder (root (snd (LoadCourses_v1 (single_file ''courses.csv'' ''CS100,first\<newline>CS100,second'') ''courses.csv'' CourseBST_new)))
     = [mk_course ''CS100'' ''first'' [], mk_course ''CS100'' ''second'' []]"
  by code_simp

lemma set_inOrder_foldl: "set (inOrder (foldl addNode t cs)) = set (inOrder t) \<union> set cs"
  by (induction cs arbitrary: t) (auto simp: set_inOrder_addNode)

text \<open>
  C8.  A course number that is not the number of any inserted course is not found: in
  variant 2 \<open>find\<close> on the map returns \<open>end()\<close> and \<open>PrintCourseDetails\<close> prints
  ``Course not found.''; in variant 1 \<open>search\<close> returns the null pointer and
  \<open>PrintCourse\<close> prints the same line.  In particular every lookup in the empty
  containers answers so.
\<close>

theorem never_inserted_not_found:
  "(k \<notin> courseNumber ` set cs \<longrightarrow>
      map_find (courseMap (foldl store catalog_new cs)) k = None \<and>
      PrintCourseDetails k (courseMap (foldl store catalog_new cs)) = [''Course not found.''] \<and>
      search (root (foldl Insert_v1 CourseBST_new cs)) k = Null \<and>
      PrintCourse (foldl Insert_v1 CourseBST_new cs) k = [''Course not found.'']) \<and>
   map_find (courseMap catalog_new) k = None \<and>
   PrintCourseDetails k (courseMap catalog_new) = [''Course not found.''] \<and>
   search (root CourseBST_new) k = Null \<and>
   PrintCourse CourseBST_new k = [''Course not found.'']"
proof -
  have empty: "map_find (courseMap catalog_new) k = None \<and>
      PrintCourseDetails k (courseMap catalog_new) = [''Course not found.''] \<and>
      search (root CourseBST_new) k = Null \<and>
      PrintCourse CourseBST_new k = [''Course not found.'']"
    by (simp add: map_find_def catalog_new_def PrintCourseDetails_def CourseBST_new_def
        PrintCourse_def)
  have "map_find (courseMap (foldl store catalog_new cs)) k = None \<and>
      PrintCourseDetails k (courseMap (foldl store catalog_new cs)) = [''Course not found.''] \<and>
      search (root (foldl Insert_v1 CourseBST_new cs)) k = Null \<and>
      PrintCourse (foldl Insert_v1 CourseBST_new cs) k = [''Course not found.'']"
    if absent: "k \<notin> courseNumber ` set cs"
  proof -
    from absent have f: "filter (\<lambda>x. courseNumber x = k) cs = []"
      by (auto simp: filter_empty_conv)
    have m: "map_find (courseMap (foldl store catalog_new cs)) k = None"
      by (simp add: map_find_def map_of_foldl_store f catalog_new_def)
    have "k \<notin> courseNumber ` set (inOrder (foldl addNode Null cs))"
      using absent by (simp add: set_inOrder_foldl)
    then have s: "search (root (foldl Insert_v1 CourseBST_new cs)) k = Null"
      by (simp add: root_foldl_Insert_v1 CourseBST_new_def search_absent)
    show ?thesis
      by (simp add: m s PrintCourseDetails_def PrintCourse_def)
  qed
  with empty show ?thesis
    by blast
qed

theorem never_inserted_not_found_witness:
  "''CS999'' \<notin> courseNumber ` set [mk_course ''CS100'' ''a'' [], mk_course ''CS200'' ''b'' [''CS100'']] \<and>
   PrintCourseDetails ''CS999'' (courseMap (foldl store catalog_new
      [mk_course ''CS100'' ''a'' [], mk_course ''CS200'' ''b'' [''CS100'']])) = [''Course not found.''] \<and>
   PrintCourse (foldl Insert_v1 CourseBST_new
      [mk_course ''CS100'' ''a'' [], mk_course ''CS200'' ''b'' [''CS100'']]) ''CS999'' = [''Course not found.'']"
  using never_inserted_not_found [of "''CS999''"
      "[mk_course ''CS100'' ''a'' [], mk_course ''CS200'' ''b'' [''CS100'']]"]
  by (simp add: mk_course_def)

section \<open>Properties of the loader\<close>

text \<open>
  C4.  When the file cannot be opened, the loader of either variant prints the one
  line that reports the failure and returns with the tree, and in variant 2 the map,
  exactly as they were passed in, whatever they held.
\<close>

theorem open_failure_changes_nothing:
  "fs filename = None \<longrightarrow>
     LoadCourses_v1 fs filename b = ([OpenFailure filename], b) \<and>
     LoadCourses_v2 fs filename cat = ([OpenFailure filename], cat) \<and>
     root (snd (LoadCourses_v1 fs filename b)) = root b \<and>
     bst (snd (LoadCourses_v2 fs filename cat)) = bst cat \<and>
     courseMap (snd (LoadCourses_v2 fs filename cat)) = courseMap cat \<and>
     map render_v1 (fst (LoadCourses_v1 fs filename b)) = [''Unable to open file: '' @ filename] \<and>
     map render_v2 (fst (LoadCourses_v2 fs filename cat)) = [''Error: Unable to open file '' @ filename]"
  by (simp add: LoadCourses_v1_def LoadCourses_v2_def)

theorem open_failure_changes_nothing_witness:
  "(single_file ''courses.csv'' ''CS100,a'') ''missing.csv'' = None \<and>
   LoadCourses_v2 (single_file ''courses.csv'' ''CS100,a'') ''missing.csv''
     (foldl store catalog_new [mk_course ''CS100'' ''a'' []])
   = ([OpenFailure ''missing.csv''], foldl store catalog_new [mk_course ''CS100'' ''a'' []]) \<and>
   LoadCourses_v1 (single_file ''courses.csv'' ''CS100,a'') ''missing.csv''
     (foldl Insert_v1 CourseBST_new [mk_course ''CS100'' ''a'' []])
   = ([OpenFailure ''missing.csv''], foldl Insert_v1 CourseBST_new [mk_course ''CS100'' ''a'' []])"
  using open_failure_changes_nothing [of "single_file ''courses.csv'' ''CS100,a''"
      "''missing.csv''" "foldl Insert_v1 CourseBST_new [mk_course ''CS100'' ''a'' []]"
      "foldl store catalog_new [mk_course ''CS100'' ''a'' []]"]
  by (simp add: single_file_def)

text \<open>
  What \<open>strip_spaces\<close> returns: the string is a run of spaces, the result, and a run
  of spaces; and a result that is not empty neither starts nor ends with a space.
\<close>

lemma rev_dropWhile_takeWhile:
  "rev (dropWhile P (rev u)) @ rev (takeWhile P (rev u)) = u"
proof -
  have "rev (takeWhile P (rev u) @ dropWhile P (rev u)) = rev (rev u)"
    by (simp only: takeWhile_dropWhile_id)
  then show ?thesis
    by (simp only: rev_append rev_rev_ident)
qed

lemma strip_spaces_decomp:
  "takeWhile (\<lambda>c. c = CHR '' '') t @ strip_spaces t @
     rev (takeWhile (\<lambda>c. c = CHR '' '') (rev (dropWhile (\<lambda>c. c = CHR '' '') t))) = t"
  unfolding strip_spaces_def
  by (simp only: rev_dropWhile_takeWhile takeWhile_dropWhile_id)

lemma strip_spaces_ends:
  assumes ne: "strip_spaces t \<noteq> []"
  shows "hd (strip_spaces t) \<noteq> CHR '' '' \<and> last (strip_spaces t) \<noteq> CHR '' ''"
proof -
  let ?P = "\<lambda>c. c = CHR '' ''"
  let ?u = "dropWhile ?P t"
  let ?v = "dropWhile ?P (rev ?u)"
  have s: "strip_spaces t = rev ?v"
    by (simp only: strip_spaces_def)
  from ne have v: "?v \<noteq> []"
    by (simp only: s rev_is_Nil_conv not_False_eq_True)
  have "\<not> ?P (hd ?v)"
    using v by (rule hd_dropWhile)
  moreover have "last (rev ?v) = hd ?v"
    using v by (simp only: last_rev)
  ultimately have last_ok: "last (strip_spaces t) \<noteq> CHR '' ''"
    unfolding s by simp
  have u_eq: "strip_spaces t @ rev (takeWhile ?P (rev ?u)) = ?u"
    by (simp only: s rev_dropWhile_takeWhile)
  then have u: "?u \<noteq> []"
    using ne by (metis append_is_Nil_conv)
  have "\<not> ?P (hd ?u)"
    using u by (rule hd_dropWhile)
  moreover have "hd ?u = hd (strip_spaces t)"
    using ne u_eq hd_append2 [of "strip_spaces t" "rev (takeWhile ?P (rev ?u))"] by simp
  ultimately show ?thesis
    using last_ok by simp
qed

text \<open>
  C6.  The body of the loop over the lines, in both variants: an empty line leaves the
  containers as they are; a line that is not empty (a line of spaces is not empty)
  stores exactly one course, the one parsed from it, whose number is the part of the
  line before the first comma and whose title is empty when the line has fewer than
  two fields; a line without a comma gives the course with the whole line as number,
  an empty title and no prerequisites.  The loader applies this body to every line of
  the file in turn, so no line is rejected.
\<close>

theorem line_kept_iff_not_empty:
  "loop_body_v1 [] b = b \<and> loop_body_v2 [] cat = cat \<and>
   (line \<noteq> [] \<longrightarrow>
      loop_body_v1 line b = Insert_v1 b (parse_line_v1 line) \<and>
      loop_body_v2 line cat = store cat (parse_line_v2 line) \<and>
      mset (inOrder (root (loop_body_v1 line b)))
        = add_mset (parse_line_v1 line) (mset (inOrder (root b))) \<and>
      mset (inOrderTraversal (root (bst (loop_body_v2 line cat))))
        = add_mset (parse_line_v2 line) (mset (inOrderTraversal (root (bst cat)))) \<and>
      map_find (courseMap (loop_body_v2 line cat)) (courseNumber (parse_line_v2 line))
        = Some (parse_line_v2 line) \<and>
      courseNumber (parse_line_v1 line) = takeWhile (\<lambda>c. c \<noteq> CHR '','') line \<and>
      courseNumber (parse_line_v2 line) = takeWhile (\<lambda>c. c \<noteq> CHR '','') line \<and>
      (length (line_fields line) < 2 \<longrightarrow>
         courseTitle (parse_line_v1 line) = [] \<and> courseTitle (parse_line_v2 line) = []) \<and>
      (CHR '','' \<notin> set line \<longrightarrow>
         parse_line_v1 line = \<lparr>courseNumber = line, courseTitle = [], prerequisites = []\<rparr> \<and>
         parse_line_v2 line = \<lparr>courseNumber = line, courseTitle = [], prerequisites = []\<rparr>)) \<and>
   (fs filename = Some content \<longrightarrow>
      snd (LoadCourses_v1 fs filename b) = foldl (\<lambda>b l. loop_body_v1 l b) b (file_lines content) \<and>
      snd (LoadCourses_v2 fs filename cat) = foldl (\<lambda>cat l. loop_body_v2 l cat) cat (file_lines content))"
proof -
  have skip: "loop_body_v1 [] b = b \<and> loop_body_v2 [] cat = cat"
    by (simp add: loop_body_v1_def loop_body_v2_def)
  have keep: "loop_body_v1 line b = Insert_v1 b (parse_line_v1 line) \<and>
      loop_body_v2 line cat = store cat (parse_line_v2 line) \<and>
      mset (inOrder (root (loop_body_v1 line b)))
        = add_mset (parse_line_v1 line) (mset (inOrder (root b))) \<and>
      mset (inOrderTraversal (root (bst (loop_body_v2 line cat))))
        = add_mset (parse_line_v2 line) (mset (inOrderTraversal (root (bst cat)))) \<and>
      map_find (courseMap (loop_body_v2 line cat)) (courseNumber (parse_line_v2 line))
        = Some (parse_line_v2 line) \<and>
      courseNumber (parse_line_v1 line) = takeWhile (\<lambda>c. c \<noteq> CHR '','') line \<and>
      courseNumber (parse_line_v2 line) = takeWhile (\<lambda>c. c \<noteq> CHR '','') line \<and>
      (length (line_fields line) < 2 \<longrightarrow>
         courseTitle (parse_line_v1 line) = [] \<and> courseTitle (parse_line_v2 line) = []) \<and>
      (CHR '','' \<notin> set line \<longrightarrow>
         parse_line_v1 line = \<lparr>courseNumber = line, courseTitle = [], prerequisites = []\<rparr> \<and>
         parse_line_v2 line = \<lparr>courseNumber = line, courseTitle = [], prerequisites = []\<rparr>)"
    if ne: "line \<noteq> []"
  proof -
    have b1: "loop_body_v1 line b = Insert_v1 b (parse_line_v1 line)"
      using ne by (simp add: loop_body_v1_def)
    have b2: "loop_body_v2 line cat = store cat (parse_line_v2 line)"
      using ne by (simp add: loop_body_v2_def)
    have m1: "mset (inOrder (root (loop_body_v1 line b)))
        = add_mset (parse_line_v1 line) (mset (inOrder (root b)))"
      by (simp add: b1 Insert_v1_def mset_inOrder_addNode)
    have m2: "mset (inOrderTraversal (root (bst (loop_body_v2 line cat))))
        = add_mset (parse_line_v2 line) (mset (inOrderTraversal (root (bst cat))))"
      by (simp add: b2 store_def Insert_v2_def insertNode_addNode inOrderTraversal_inOrder
          mset_inOrder_addNode)
    have f: "map_find (courseMap (loop_body_v2 line cat)) (courseNumber (parse_line_v2 line))
        = Some (parse_line_v2 line)"
      by (simp add: b2 store_def map_find_def update_conv')
    have n1: "courseNumber (parse_line_v1 line) = takeWhile (\<lambda>c. c \<noteq> CHR '','') line"
      using ne by (simp add: parse_line_v1_fields hd_line_fields)
    have n2: "courseNumber (parse_line_v2 line) = takeWhile (\<lambda>c. c \<noteq> CHR '','') line"
      using ne by (simp add: parse_line_v2_fields hd_line_fields)
    have t: "length (line_fields line) < 2 \<longrightarrow>
         courseTitle (parse_line_v1 line) = [] \<and> courseTitle (parse_line_v2 line) = []"
      using ne by (simp add: parse_line_v1_fields parse_line_v2_fields)
    have nc: "CHR '','' \<notin> set line \<longrightarrow>
         parse_line_v1 line = \<lparr>courseNumber = line, courseTitle = [], prerequisites = []\<rparr> \<and>
         parse_line_v2 line = \<lparr>courseNumber = line, courseTitle = [], prerequisites = []\<rparr>"
      using ne by (simp add: parse_line_v1_fields parse_line_v2_fields line_fields_no_comma)
    from b1 b2 m1 m2 f n1 n2 t nc show ?thesis
      by blast
  qed
  have whole: "snd (LoadCourses_v1 fs filename b) = foldl (\<lambda>b l. loop_body_v1 l b) b (file_lines content) \<and>
      snd (LoadCourses_v2 fs filename cat) = foldl (\<lambda>cat l. loop_body_v2 l cat) cat (file_lines content)"
    if "fs filename = Some content"
    using that
    by (simp add: LoadCourses_v1_def LoadCourses_v2_def Let_def load_lines_v1_fields
        load_lines_v2_fields file_lines_def)
  from skip keep whole show ?thesis
    by blast
qed

theorem line_kept_iff_not_empty_witness:
  "''   '' \<noteq> [] \<and> length (line_fields ''   '') < 2 \<and> CHR '','' \<notin> set ''   '' \<and>
   (single_file ''courses.csv'' ''\<newline>   \<newline>CS100'') ''courses.csv'' = Some ''\<newline>   \<newline>CS100'' \<and>
   loop_body_v2 ''   '' catalog_new = store catalog_new (parse_line_v2 ''   '') \<and>
   loop_body_v1 ''   '' CourseBST_new = Insert_v1 CourseBST_new (parse_line_v1 ''   '') \<and>
   parse_line_v2 ''   '' = \<lparr>courseNumber = ''   '', courseTitle = [], prerequisites = []\<rparr> \<and>
   parse_line_v1 ''   '' = \<lparr>courseNumber = ''   '', courseTitle = [], prerequisites = []\<rparr> \<and>
   snd (LoadCourses_v2 (single_file ''courses.csv'' ''\<newline>   \<newline>CS100'') ''courses.csv'' catalog_new)
     = foldl (\<lambda>cat l. loop_body_v2 l cat) catalog_new (file_lines ''\<newline>   \<newline>CS100'')"
proof -
  have fields: "line_fields ''   '' = [''   '']"
    by (rule line_fields_no_comma) simp_all
  show ?thesis
    using line_kept_iff_not_empty [of CourseBST_new catalog_new "''   ''"
        "single_file ''courses.csv'' ''\<newline>   \<newline>CS100''" "''courses.csv''" "''\<newline>   \<newline>CS100''"]
    by (simp add: fields single_file_def)
qed

text \<open>The lines of the text used above: an empty line, a line of spaces, a last line.\<close>

lemma file_lines_example:
  "file_lines ''\<newline>   \<newline>CS100'' = [[], ''   '', ''CS100'']"
  by code_simp

text \<open>
  C5.  Variant 2 stores each prerequisite field without the spaces at its ends and
  drops a field that is empty after that (\<open>parse_line_v2_fields\<close>,
  \<open>strip_spaces_decomp\<close>, \<open>strip_spaces_ends\<close>); number and title are stored as read
  in both variants.  Variant 1 removes one space at the front and one at the back
  only (\<open>parse_line_v1_fields\<close>): of a field with two spaces in front one space
  stays, and a field of three spaces is stored as one space instead of being dropped.
  Variant 2 stores the same line with the prerequisite \<open>CS100\<close> alone.
\<close>

theorem trim_v1_removes_one_space:
  "inOrder (root (snd (LoadCourses_v1 (single_file ''courses.csv'' ''CS200,Data Structures,  CS100,   '')
      ''courses.csv'' CourseBST_new)))
     = [mk_course ''CS200'' ''Data Structures'' ['' CS100'', '' '']] \<and>
   inOrderTraversal (root (bst (snd (LoadCourses_v2 (single_file ''courses.csv'' ''CS200,Data Structures,  CS100,   '')
      ''courses.csv'' catalog_new))))
     = [mk_course ''CS200'' ''Data Structures'' [''CS100'']]"
  by code_simp

subsection \<open>Stored prerequisites\<close>

lemma set_update_subset: "set (AList.update k v m) \<subseteq> insert (k, v) (set m)"
  by (induction m) auto

lemma parse_line_v1_nonempty: "line \<noteq> [] \<Longrightarrow> [] \<notin> set (prerequisites (parse_line_v1 line))"
  by (simp add: parse_line_v1_fields)

lemma parse_line_v2_nonempty: "line \<noteq> [] \<Longrightarrow> [] \<notin> set (prerequisites (parse_line_v2 line))"
  by (simp add: parse_line_v2_fields)

lemma courses_v1_nonempty: "c \<in> set (courses_v1 content) \<Longrightarrow> [] \<notin> set (prerequisites c)"
  by (auto simp: courses_v1_def parse_line_v1_nonempty)

lemma courses_v2_nonempty: "c \<in> set (courses_v2 content) \<Longrightarrow> [] \<notin> set (prerequisites c)"
  by (auto simp: courses_v2_def parse_line_v2_nonempty)

lemma tree_prereqs_foldl:
  "tree_prereqs (foldl addNode t cs) = tree_prereqs t \<union> (\<Union>c \<in> set cs. set (prerequisites c))"
  by (simp add: tree_prereqs_def set_inOrder_foldl)

lemma map_prereqs_store:
  "map_prereqs (courseMap (store cat c)) \<subseteq> map_prereqs (courseMap cat) \<union> set (prerequisites c)"
  using set_update_subset [of "courseNumber c" c "courseMap cat"]
  by (auto simp: map_prereqs_def store_def)

lemma map_prereqs_foldl:
  "map_prereqs (courseMap (foldl store cat cs))
     \<subseteq> map_prereqs (courseMap cat) \<union> (\<Union>c \<in> set cs. set (prerequisites c))"
proof (induction cs rule: rev_induct)
  case Nil
  show ?case by simp
next
  case (snoc x xs)
  have "map_prereqs (courseMap (foldl store cat (xs @ [x])))
      \<subseteq> map_prereqs (courseMap (foldl store cat xs)) \<union> set (prerequisites x)"
    using map_prereqs_store [of "foldl store cat xs" x] by simp
  with snoc show ?case
    by auto
qed

lemma reachable_v1_nonempty: "reachable_v1 b \<Longrightarrow> [] \<notin> tree_prereqs (root b)"
proof (induction rule: reachable_v1.induct)
  case new_v1
  show ?case by (simp add: tree_prereqs_def CourseBST_new_def)
next
  case (load_v1 b fs filename)
  show ?case
  proof (cases "fs filename")
    case None
    with load_v1.IH show ?thesis
      by (simp add: LoadCourses_v1_None)
  next
    case (Some content)
    then have "root (snd (LoadCourses_v1 fs filename b)) = foldl addNode (root b) (courses_v1 content)"
      by (simp add: LoadCourses_v1_Some root_foldl_Insert_v1)
    with load_v1.IH show ?thesis
      by (auto simp: tree_prereqs_foldl dest: courses_v1_nonempty)
  qed
qed

lemma reachable_v2_nonempty:
  "reachable_v2 cat \<Longrightarrow> [] \<notin> tree_prereqs (root (bst cat)) \<and> [] \<notin> map_prereqs (courseMap cat)"
proof (induction rule: reachable_v2.induct)
  case new_v2
  show ?case by (simp add: tree_prereqs_def map_prereqs_def catalog_new_def CourseBST_new_def)
next
  case (load_v2 cat fs filename)
  show ?case
  proof (cases "fs filename")
    case None
    with load_v2.IH show ?thesis
      by (simp add: LoadCourses_v2_None)
  next
    case (Some content)
    then have eq: "snd (LoadCourses_v2 fs filename cat) = foldl store cat (courses_v2 content)"
      by (rule LoadCourses_v2_Some)
    have "root (bst (foldl store cat (courses_v2 content))) = foldl addNode (root (bst cat)) (courses_v2 content)"
      by (simp add: bst_foldl_store foldl_Insert_v2 root_foldl_Insert_v1)
    then have t: "[] \<notin> tree_prereqs (root (bst (foldl store cat (courses_v2 content))))"
      using load_v2.IH by (auto simp: tree_prereqs_foldl dest: courses_v2_nonempty)
    have m: "[] \<notin> map_prereqs (courseMap (foldl store cat (courses_v2 content)))"
      using load_v2.IH map_prereqs_foldl [of cat "courses_v2 content"]
      by (auto dest: courses_v2_nonempty)
    from t m eq show ?thesis
      by simp
  qed
qed

text \<open>
  C9.  In every tree and every map that the main loop can hold, that is after any
  number of loads from empty containers, in either variant, every prerequisite of every
  stored course is a string that is not empty.
\<close>

theorem stored_prerequisites_nonempty:
  "(reachable_v1 b \<longrightarrow> (\<forall>c \<in> set (inOrder (root b)). \<forall>p \<in> set (prerequisites c). p \<noteq> [])) \<and>
   (reachable_v2 cat \<longrightarrow>
      (\<forall>c \<in> set (inOrderTraversal (root (bst cat))). \<forall>p \<in> set (prerequisites c). p \<noteq> []) \<and>
      (\<forall>(k, c) \<in> set (courseMap cat). \<forall>p \<in> set (prerequisites c). p \<noteq> []))"
proof -
  have "\<forall>c \<in> set (inOrder (root b)). \<forall>p \<in> set (prerequisites c). p \<noteq> []"
    if "reachable_v1 b"
    using reachable_v1_nonempty [OF that] by (auto simp: tree_prereqs_def)
  moreover have "(\<forall>c \<in> set (inOrderTraversal (root (bst cat))). \<forall>p \<in> set (prerequisites c). p \<noteq> []) \<and>
      (\<forall>(k, c) \<in> set (courseMap cat). \<forall>p \<in> set (prerequisites c). p \<noteq> [])"
    if "reachable_v2 cat"
    using reachable_v2_nonempty [OF that]
    by (auto simp: tree_prereqs_def map_prereqs_def inOrderTraversal_inOrder)
  ultimately show ?thesis
    by blast
qed

theorem stored_prerequisites_nonempty_witness:
  "reachable_v1 (snd (LoadCourses_v1 (single_file ''courses.csv'' ''CS200,DS, CS100 ,, ,'') ''courses.csv'' CourseBST_new)) \<and>
   reachable_v2 (snd (LoadCourses_v2 (single_file ''courses.csv'' ''CS200,DS, CS100 ,, ,'') ''courses.csv'' catalog_new)) \<and>
   list_all (\<lambda>c. list_all (\<lambda>p. p \<noteq> []) (prerequisites c))
     (inOrder (root (snd (LoadCourses_v1 (single_file ''courses.csv'' ''CS200,DS, CS100 ,, ,'') ''courses.csv'' CourseBST_new)))) \<and>
   list_all (\<lambda>c. list_all (\<lambda>p. p \<noteq> []) (prerequisites c))
     (inOrderTraversal (root (bst (snd (LoadCourses_v2 (single_file ''courses.csv'' ''CS200,DS, CS100 ,, ,'') ''courses.csv'' catalog_new))))) \<and>
   list_all (\<lambda>e. list_all (\<lambda>p. p \<noteq> []) (prerequisites (snd e)))
     (courseMap (snd (LoadCourses_v2 (single_file ''courses.csv'' ''CS200,DS, CS100 ,, ,'') ''courses.csv'' catalog_new)))"
proof -
  let ?b = "snd (LoadCourses_v1 (single_file ''courses.csv'' ''CS200,DS, CS100 ,, ,'') ''courses.csv'' CourseBST_new)"
  let ?cat = "snd (LoadCourses_v2 (single_file ''courses.csv'' ''CS200,DS, CS100 ,, ,'') ''courses.csv'' catalog_new)"
  have r1: "reachable_v1 ?b"
    by (rule reachable_v1.load_v1) (rule reachable_v1.new_v1)
  have r2: "reachable_v2 ?cat"
    by (rule reachable_v2.load_v2) (rule reachable_v2.new_v2)
  note t = stored_prerequisites_nonempty [of ?b ?cat]
  from t r1 have a: "\<forall>c \<in> set (inOrder (root ?b)). \<forall>p \<in> set (prerequisites c). p \<noteq> []"
    by (rule conjunct1 [THEN mp])
  from t r2 have bc: "(\<forall>c \<in> set (inOrderTraversal (root (bst ?cat))). \<forall>p \<in> set (prerequisites c). p \<noteq> []) \<and>
      (\<forall>(k, c) \<in> set (courseMap ?cat). \<forall>p \<in> set (prerequisites c). p \<noteq> [])"
    by (rule conjunct2 [THEN mp])
  from a have a': "list_all (\<lambda>c. list_all (\<lambda>p. p \<noteq> []) (prerequisites c)) (inOrder (root ?b))"
    unfolding list_all_iff .
  from bc [THEN conjunct1] have b': "list_all (\<lambda>c. list_all (\<lambda>p. p \<noteq> []) (prerequisites c))
      (inOrderTraversal (root (bst ?cat)))"
    unfolding list_all_iff .
  from bc [THEN conjunct2] have c': "list_all (\<lambda>e. list_all (\<lambda>p. p \<noteq> []) (prerequisites (snd e))) (courseMap ?cat)"
    unfolding list_all_iff case_prod_beta .
  from r1 r2 a' b' c' show ?thesis
    by (intro conjI)
qed

text \<open>What the two loaders store for the line of the example.\<close>

lemma stored_example:
  "courseMap (snd (LoadCourses_v2 (single_file ''courses.csv'' ''CS200,DS, CS100 ,, ,'') ''courses.csv'' catalog_new))
     = [(''CS200'', mk_course ''CS200'' ''DS'' [''CS100''])] \<and>
   inOrder (root (snd (LoadCourses_v1 (single_file ''courses.csv'' ''CS200,DS, CS100 ,, ,'') ''courses.csv'' CourseBST_new)))
     = [mk_course ''CS200'' ''DS'' [''CS100'']]"
  by code_simp

subsection \<open>The validation pass\<close>

lemma count_check_prereqs:
  "count_list (check_prereqs k ps m) (Warning o' p) =
     (if o' = k \<and> map_find m p = None then count_list ps p else 0)"
  by (induction ps) auto

lemma check_prereqs_no_failure: "OpenFailure f \<notin> set (check_prereqs k ps m)"
  by (induction ps) auto

lemma check_prereqs_empty:
  "check_prereqs k ps m = [] \<longleftrightarrow> (\<forall>p \<in> set ps. map_find m p \<noteq> None)"
  by (induction ps) auto

lemma validate_no_failure: "OpenFailure f \<notin> set (validate es m)"
  by (induction es m rule: validate.induct) (auto simp: check_prereqs_no_failure)

lemma validate_empty:
  "validate es m = [] \<longleftrightarrow> (\<forall>(k, c) \<in> set es. \<forall>p \<in> set (prerequisites c). map_find m p \<noteq> None)"
  by (induction es m rule: validate.induct) (auto simp: check_prereqs_empty)

lemma count_validate_absent:
  "o' \<notin> fst ` set es \<Longrightarrow> count_list (validate es m) (Warning o' p) = 0"
  by (induction es m rule: validate.induct) (auto simp: count_check_prereqs)

lemma count_validate:
  "distinct (map fst es) \<Longrightarrow>
   count_list (validate es m) (Warning o' p) =
     (case map_of es o' of
        None \<Rightarrow> 0
      | Some c \<Rightarrow> if map_find m p = None then count_list (prerequisites c) p else 0)"
proof (induction es m rule: validate.induct)
  case (1 m)
  show ?case by simp
next
  case (2 k c es m)
  show ?case
  proof (cases "o' = k")
    case True
    with "2.prems" have "o' \<notin> fst ` set es" by auto
    then have "count_list (validate es m) (Warning o' p) = 0"
      by (rule count_validate_absent)
    with True show ?thesis
      by (simp add: count_check_prereqs)
  next
    case False
    with "2.IH" "2.prems" show ?thesis
      by (simp add: count_check_prereqs)
  qed
qed

lemma consistent_new: "consistent catalog_new"
  by (simp add: consistent_def catalog_new_def)

lemma consistent_store: "consistent cat \<Longrightarrow> consistent (store cat c)"
proof -
  assume c: "consistent cat"
  have d: "distinct (map fst (courseMap (store cat c)))"
    using c by (simp add: consistent_def store_def distinct_update)
  have "courseNumber c' = k \<and> c' \<in> set (inOrderTraversal (root (bst (store cat c))))"
    if "(k, c') \<in> set (courseMap (store cat c))" for k c'
  proof -
    from that have "(k, c') = (courseNumber c, c) \<or> (k, c') \<in> set (courseMap cat)"
      using set_update_subset [of "courseNumber c" c "courseMap cat"] by (auto simp: store_def)
    then show ?thesis
      using c
      by (auto simp: consistent_def store_def Insert_v2_def insertNode_addNode
          inOrderTraversal_inOrder set_inOrder_addNode)
  qed
  with d show ?thesis
    by (auto simp: consistent_def)
qed

lemma consistent_foldl: "consistent cat \<Longrightarrow> consistent (foldl store cat cs)"
  by (induction cs arbitrary: cat) (simp_all add: consistent_store)

lemma reachable_v2_consistent: "reachable_v2 cat \<Longrightarrow> consistent cat"
proof (induction rule: reachable_v2.induct)
  case new_v2
  show ?case by (rule consistent_new)
next
  case (load_v2 cat fs filename)
  then show ?case
    by (cases "fs filename") (simp_all add: LoadCourses_v2_None LoadCourses_v2_Some consistent_foldl)
qed

text \<open>
  C7, as amended.  Let the loader of variant 2 be called on containers that the main
  loop can hold and on a file that opens.  Then it returns the containers as they are
  after the last line (so a course with a dangling prerequisite stays in both), and
  what it prints are warnings only, no failure.  The number of warnings that name an
  owner and a missing prerequisite is the number of occurrences of that prerequisite
  in the list of the course filed under the owner in the final map, when the map has
  no entry for the prerequisite, and zero otherwise; so a prerequisite that is listed
  once gets exactly one warning, and one that is listed \<open>n\<close> times gets \<open>n\<close>.  There
  is no warning at all exactly when no course of the final map lists a prerequisite
  that the map lacks.  The course that a warning names as owner is in the final map
  under that number and in the sorted listing.
\<close>

theorem warnings_per_dangling_occurrence:
  "reachable_v2 cat \<and> fs filename = Some content \<longrightarrow>
     snd (LoadCourses_v2 fs filename cat) = load_lines_v2 (open_stream content) [] cat \<and>
     (\<forall>f. OpenFailure f \<notin> set (fst (LoadCourses_v2 fs filename cat))) \<and>
     (\<forall>o' p. count_list (fst (LoadCourses_v2 fs filename cat)) (Warning o' p) =
        (case map_find (courseMap (snd (LoadCourses_v2 fs filename cat))) o' of
           None \<Rightarrow> 0
         | Some c \<Rightarrow>
             if map_find (courseMap (snd (LoadCourses_v2 fs filename cat))) p = None
             then count_list (prerequisites c) p else 0)) \<and>
     (fst (LoadCourses_v2 fs filename cat) = [] \<longleftrightarrow>
        (\<forall>(k, c) \<in> set (courseMap (snd (LoadCourses_v2 fs filename cat))).
           \<forall>p \<in> set (prerequisites c).
             map_find (courseMap (snd (LoadCourses_v2 fs filename cat))) p \<noteq> None)) \<and>
     (\<forall>o' p. Warning o' p \<in> set (fst (LoadCourses_v2 fs filename cat)) \<longrightarrow>
        (\<exists>c. map_find (courseMap (snd (LoadCourses_v2 fs filename cat))) o' = Some c \<and>
             p \<in> set (prerequisites c) \<and> courseNumber c = o' \<and>
             c \<in> set (inOrderTraversal (root (bst (snd (LoadCourses_v2 fs filename cat)))))))"
proof
  assume a: "reachable_v2 cat \<and> fs filename = Some content"
  let ?cat' = "load_lines_v2 (open_stream content) [] cat"
  let ?m = "courseMap ?cat'"
  from a have out: "fst (LoadCourses_v2 fs filename cat) = validate ?m ?m"
    and st: "snd (LoadCourses_v2 fs filename cat) = ?cat'"
    by (simp_all add: LoadCourses_v2_def Let_def)
  have "reachable_v2 (snd (LoadCourses_v2 fs filename cat))"
    using a by (auto intro: reachable_v2.intros)
  then have cons: "consistent ?cat'"
    unfolding st by (rule reachable_v2_consistent)
  then have d: "distinct (map fst ?m)"
    by (simp add: consistent_def)
  have cnt: "count_list (validate ?m ?m) (Warning o' p) =
      (case map_find ?m o' of None \<Rightarrow> 0
       | Some c \<Rightarrow> if map_find ?m p = None then count_list (prerequisites c) p else 0)" for o' p
    using count_validate [OF d, of ?m o' p] by (simp add: map_find_def)
  have present: "\<exists>c. map_find ?m o' = Some c \<and> p \<in> set (prerequisites c) \<and> courseNumber c = o' \<and>
      c \<in> set (inOrderTraversal (root (bst ?cat')))"
    if w: "Warning o' p \<in> set (validate ?m ?m)" for o' p
  proof -
    from w have "count_list (validate ?m ?m) (Warning o' p) \<noteq> 0"
      by (simp add: count_list_0_iff)
    with cnt [of o' p] obtain c where c: "map_find ?m o' = Some c" "count_list (prerequisites c) p \<noteq> 0"
      by (auto split: option.splits if_splits)
    from c(1) have "(o', c) \<in> set ?m"
      by (simp add: map_find_def map_of_SomeD)
    with cons have "courseNumber c = o'" "c \<in> set (inOrderTraversal (root (bst ?cat')))"
      by (auto simp: consistent_def)
    moreover from c(2) have "p \<in> set (prerequisites c)"
      by (simp add: count_list_0_iff)
    ultimately show ?thesis
      using c(1) by blast
  qed
  show "snd (LoadCourses_v2 fs filename cat) = load_lines_v2 (open_stream content) [] cat \<and>
     (\<forall>f. OpenFailure f \<notin> set (fst (LoadCourses_v2 fs filename cat))) \<and>
     (\<forall>o' p. count_list (fst (LoadCourses_v2 fs filename cat)) (Warning o' p) =
        (case map_find (courseMap (snd (LoadCourses_v2 fs filename cat))) o' of
           None \<Rightarrow> 0
         | Some c \<Rightarrow>
             if map_find (courseMap (snd (LoadCourses_v2 fs filename cat))) p = None
             then count_list (prerequisites c) p else 0)) \<and>
     (fst (LoadCourses_v2 fs filename cat) = [] \<longleftrightarrow>
        (\<forall>(k, c) \<in> set (courseMap (snd (LoadCourses_v2 fs filename cat))).
           \<forall>p \<in> set (prerequisites c).
             map_find (courseMap (snd (LoadCourses_v2 fs filename cat))) p \<noteq> None)) \<and>
     (\<forall>o' p. Warning o' p \<in> set (fst (LoadCourses_v2 fs filename cat)) \<longrightarrow>
        (\<exists>c. map_find (courseMap (snd (LoadCourses_v2 fs filename cat))) o' = Some c \<and>
             p \<in> set (prerequisites c) \<and> courseNumber c = o' \<and>
             c \<in> set (inOrderTraversal (root (bst (snd (LoadCourses_v2 fs filename cat)))))))"
    unfolding out st
    using cnt present validate_no_failure [of _ ?m ?m] validate_empty [of ?m ?m]
    by blast
qed

theorem warnings_per_dangling_occurrence_witness:
  "reachable_v2 catalog_new \<and>
   (single_file ''courses.csv'' ''CS200,DS,CS100,CS300\<newline>CS100,Intro'') ''courses.csv''
     = Some ''CS200,DS,CS100,CS300\<newline>CS100,Intro'' \<and>
   fst (LoadCourses_v2 (single_file ''courses.csv'' ''CS200,DS,CS100,CS300\<newline>CS100,Intro'') ''courses.csv'' catalog_new)
     = [Warning ''CS200'' ''CS300''] \<and>
   (\<exists>c. map_find (courseMap (snd (LoadCourses_v2
            (single_file ''courses.csv'' ''CS200,DS,CS100,CS300\<newline>CS100,Intro'') ''courses.csv'' catalog_new))) ''CS200'' = Some c \<and>
        ''CS300'' \<in> set (prerequisites c) \<and> courseNumber c = ''CS200'' \<and>
        c \<in> set (inOrderTraversal (root (bst (snd (LoadCourses_v2
            (single_file ''courses.csv'' ''CS200,DS,CS100,CS300\<newline>CS100,Intro'') ''courses.csv'' catalog_new))))))"
proof -
  let ?fs = "single_file ''courses.csv'' ''CS200,DS,CS100,CS300\<newline>CS100,Intro''"
  let ?out = "fst (LoadCourses_v2 ?fs ''courses.csv'' catalog_new)"
  let ?cat = "snd (LoadCourses_v2 ?fs ''courses.csv'' catalog_new)"
  have r: "reachable_v2 catalog_new"
    by (rule reachable_v2.new_v2)
  have h: "?fs ''courses.csv'' = Some ''CS200,DS,CS100,CS300\<newline>CS100,Intro''"
    by (simp add: single_file_def)
  have ev: "?out = [Warning ''CS200'' ''CS300'']"
    by code_simp
  then have w: "Warning ''CS200'' ''CS300'' \<in> set ?out"
    by simp
  have "\<forall>o' p. Warning o' p \<in> set ?out \<longrightarrow>
        (\<exists>c. map_find (courseMap ?cat) o' = Some c \<and>
             p \<in> set (prerequisites c) \<and> courseNumber c = o' \<and>
             c \<in> set (inOrderTraversal (root (bst ?cat))))"
    using r h warnings_per_dangling_occurrence [of catalog_new ?fs "''courses.csv''"
        "''CS200,DS,CS100,CS300\<newline>CS100,Intro''"]
    by blast
  with w have "\<exists>c. map_find (courseMap ?cat) ''CS200'' = Some c \<and>
        ''CS300'' \<in> set (prerequisites c) \<and> courseNumber c = ''CS200'' \<and>
        c \<in> set (inOrderTraversal (root (bst ?cat)))"
    by blast
  with r h ev show ?thesis
    by blast
qed

text \<open>
  Without the amendment C7 fails when a course lists a missing prerequisite twice:
  the one pair of owner \<open>CS200\<close> and missing prerequisite \<open>CS300\<close> gets two warnings.
\<close>

theorem repeated_prerequisite_counterexample:
  "courseMap (snd (LoadCourses_v2 (single_file ''courses.csv'' ''CS200,DS,CS300,CS300'') ''courses.csv'' catalog_new))
     = [(''CS200'', mk_course ''CS200'' ''DS'' [''CS300'', ''CS300''])] \<and>
   fst (LoadCourses_v2 (single_file ''courses.csv'' ''CS200,DS,CS300,CS300'') ''courses.csv'' catalog_new)
     = [Warning ''CS200'' ''CS300'', Warning ''CS200'' ''CS300''] \<and>
   count_list (fst (LoadCourses_v2 (single_file ''courses.csv'' ''CS200,DS,CS300,CS300'') ''courses.csv'' catalog_new))
     (Warning ''CS200'' ''CS300'') = 2"
  by code_simp

text \<open>
  C10.  The containers that the loader of variant 2 returns are those it has after
  the loop over the lines, which are the result of applying the loop body to the
  lines of the file in turn; the validation pass that follows only reads the map, to
  produce the warnings.
\<close>

theorem validation_changes_nothing:
  "snd (LoadCourses_v2 fs filename cat) =
     (case fs filename of
        None \<Rightarrow> cat
      | Some content \<Rightarrow> load_lines_v2 (open_stream content) [] cat) \<and>
   (fs filename = Some content \<longrightarrow>
      bst (snd (LoadCourses_v2 fs filename cat))
        = bst (foldl (\<lambda>cat l. loop_body_v2 l cat) cat (file_lines content)) \<and>
      courseMap (snd (LoadCourses_v2 fs filename cat))
        = courseMap (foldl (\<lambda>cat l. loop_body_v2 l cat) cat (file_lines content)) \<and>
      fst (LoadCourses_v2 fs filename cat)
        = validate (courseMap (snd (LoadCourses_v2 fs filename cat)))
            (courseMap (snd (LoadCourses_v2 fs filename cat))))"
  by (simp add: LoadCourses_v2_def Let_def load_lines_v2_fields file_lines_def split: option.splits)

theorem validation_changes_nothing_witness:
  "(single_file ''courses.csv'' ''CS200,DS,CS300\<newline>CS100,Intro'') ''courses.csv'' = Some ''CS200,DS,CS300\<newline>CS100,Intro'' \<and>
   bst (snd (LoadCourses_v2 (single_file ''courses.csv'' ''CS200,DS,CS300\<newline>CS100,Intro'') ''courses.csv'' catalog_new))
     = bst (foldl (\<lambda>cat l. loop_body_v2 l cat) catalog_new (file_lines ''CS200,DS,CS300\<newline>CS100,Intro'')) \<and>
   courseMap (snd (LoadCourses_v2 (single_file ''courses.csv'' ''CS200,DS,CS300\<newline>CS100,Intro'') ''courses.csv'' catalog_new))
     = courseMap (foldl (\<lambda>cat l. loop_body_v2 l cat) catalog_new (file_lines ''CS200,DS,CS300\<newline>CS100,Intro''))"
proof -
  have h: "(single_file ''courses.csv'' ''CS200,DS,CS300\<newline>CS100,Intro'') ''courses.csv''
      = Some ''CS200,DS,CS300\<newline>CS100,Intro''"
    by (simp add: single_file_def)
  show ?thesis
    using h validation_changes_nothing [of "single_file ''courses.csv'' ''CS200,DS,CS300\<newline>CS100,Intro''" "''courses.csv''"
      catalog_new "''CS200,DS,CS300\<newline>CS100,Intro''"]
    by blast
qed

text \<open>A load with one dangling prerequisite, evaluated.\<close>

lemma validation_example:
  "LoadCourses_v2 (single_file ''courses.csv'' ''CS200,DS,CS300\<newline>CS100,Intro'') ''courses.csv'' catalog_new =
     ([Warning ''CS200'' ''CS300''],
      \<lparr>bst = \<lparr>root = Node (mk_course ''CS200'' ''DS'' [''CS300''])
                        (Node (mk_course ''CS100'' ''Intro'' []) Null Null) Null\<rparr>,
       courseMap = [(''CS200'', mk_course ''CS200'' ''DS'' [''CS300'']),
                    (''CS100'', mk_course ''CS100'' ''Intro'' [])]\<rparr>)"
  by code_simp

end
